theory Spec2Isabelle
  imports Main "HOL-Library.Multiset"
begin

section \<open>JavaScript values, operations and diagnostics\<close>

text \<open>
  The part of JavaScript's value space that \<^verbatim>\<open>index.js\<close> inspects: the constructor of
  \<^verbatim>\<open>ParallelLimiter\<close> reads the property \<^verbatim>\<open>debug\<close> of its \<^verbatim>\<open>logger\<close> argument, and
  every diagnostic calls a logger. An object or a function carries the properties visible
  on it, as an association list.
\<close>

datatype jsval =
    JSUndefined
  | JSNull
  | JSNumber int
  | JSString string
  | JSFunction string "(string \<times> jsval) list"
  | JSObject "(string \<times> jsval) list"

text \<open>
  Reading a property: of an object or a function, the value stored or \<^verbatim>\<open>undefined\<close>; of
  a number or a string, \<^verbatim>\<open>undefined\<close> (no such property on their prototypes). The source
  reads a property only behind \<^verbatim>\<open>?.\<close>, which keeps \<^verbatim>\<open>undefined\<close> and \<^verbatim>\<open>null\<close> away.
\<close>

fun js_get :: "jsval \<Rightarrow> string \<Rightarrow> jsval" where
  "js_get (JSObject ps) k = (case map_of ps k of Some v \<Rightarrow> v | None \<Rightarrow> JSUndefined)"
| "js_get (JSFunction n ps) k = (case map_of ps k of Some v \<Rightarrow> v | None \<Rightarrow> JSUndefined)"
| "js_get v k = JSUndefined"

definition nullish :: "jsval \<Rightarrow> bool" where
  "nullish v = (v = JSUndefined \<or> v = JSNull)"

text \<open>\<^verbatim>\<open>v?.k\<close>: undefined on a nullish receiver, the property otherwise.\<close>

definition optional_chain :: "jsval \<Rightarrow> string \<Rightarrow> jsval" where
  "optional_chain v k = (if nullish v then JSUndefined else js_get v k)"

text \<open>\<^verbatim>\<open>a ?? b\<close>: the right operand when the left one is null or undefined.\<close>

definition nullish_coalesce :: "jsval \<Rightarrow> jsval \<Rightarrow> jsval" where
  "nullish_coalesce a b = (if nullish a then b else a)"

text \<open>The default value \<^verbatim>\<open>() => {}\<close> of the \<^verbatim>\<open>logger\<close> parameters.\<close>

definition noop_logger :: jsval where
  "noop_logger = JSFunction ''() => {}'' []"

text \<open>Only a function can be called; calling any other value raises \<^verbatim>\<open>TypeError\<close>.\<close>

fun callable :: "jsval \<Rightarrow> bool" where
  "callable (JSFunction n ps) = True"
| "callable v = False"

text \<open>
  What a \<^verbatim>\<open>throw\<close> carries and what a promise is rejected with: the \<^verbatim>\<open>TypeError\<close> the
  engine raises when a value that is no function is called or a property of \<^verbatim>\<open>undefined\<close>
  or \<^verbatim>\<open>null\<close> is read; \<^verbatim>\<open>undefined\<close> or \<^verbatim>\<open>null\<close> itself (\<open>Nullish\<close>), whose \<^verbatim>\<open>message\<close>
  cannot be read; or any other value.
\<close>

datatype 'e exn = TypeError | Nullish | Raised 'e

text \<open>
  What calling a caller-supplied function (\<^verbatim>\<open>promiseProvider()\<close>, \<^verbatim>\<open>jobToPromise(job)\<close>)
  does: it raises synchronously, or it returns a promise. The promise is fulfilled with a
  value, rejected with an error, or stays pending for ever (\<open>None\<close>). When the promise
  settles is the scheduler's choice, which the event sequences below range over. A
  returned value that is no promise is a fulfilled promise to \<^verbatim>\<open>await\<close>; to line 34, which
  calls its \<^verbatim>\<open>then\<close>, it is a synchronous \<^verbatim>\<open>TypeError\<close>.
\<close>

datatype ('v, 'e) settlement = Resolves 'v | RejectsWith "'e exn"

datatype ('v, 'e) operation = Throws "'e exn" | Returns "('v, 'e) settlement option"

text \<open>
  The strings handed to the logger, one constructor per template literal of the source,
  carrying the interpolated values in the template's order.
\<close>

datatype 'e diag =
    BatchMaxReached nat nat int int
      \<comment> \<open>\<^verbatim>\<open>Running i/n jobs, max parallel count reached (rc), waiting for r ms\<close>\<close>
  | BatchStarted nat nat int
      \<comment> \<open>\<^verbatim>\<open>Started i/n (parallel=rc)\<close>\<close>
  | BatchWaiting int int
      \<comment> \<open>\<^verbatim>\<open>Waiting for runs to complete (rc), waiting for r ms\<close>\<close>
  | MaxReached int int
      \<comment> \<open>\<^verbatim>\<open>Max parallel count reached (rc), waiting for r ms\<close>\<close>
  | StartedPromise int int
      \<comment> \<open>\<^verbatim>\<open>Started Promise (rc/max running)\<close>\<close>
  | FinalizedPromise int int
      \<comment> \<open>\<^verbatim>\<open>Finalized Promise (rc/max running)\<close>\<close>
  | FailedPromise int int "'e exn"
      \<comment> \<open>\<^verbatim>\<open>Failed Promise (rc/max running): e.message\<close>\<close>

section \<open>The state shared by both admission loops\<close>

text \<open>
  \<^verbatim>\<open>ParallelLimiter\<close> keeps \<^verbatim>\<open>maxParallel\<close>, \<^verbatim>\<open>retryMs\<close>, \<^verbatim>\<open>logger\<close>, \<^verbatim>\<open>logRetries\<close>
  and \<^verbatim>\<open>runningCount\<close> as fields; \<^verbatim>\<open>allSettledParallelLimited\<close> has parameters and a local
  of the same names. Two traces record the effects: \<open>logged\<close> holds every call of a
  logger that took place (the callee and the message), \<open>timeouts\<close> every delay passed to
  \<^verbatim>\<open>asyncTimeout\<close>. \<^verbatim>\<open>maxParallel\<close> and \<^verbatim>\<open>retryMs\<close> are integers, as in the data model of
  the specification and in every use of the repository.
\<close>

record 'e gate =
  maxParallel :: int
  retryMs :: int
  logger :: jsval
  logRetries :: bool
  runningCount :: int
  logged :: "(jsval \<times> 'e diag) list"
  timeouts :: "int list"

text \<open>
  The call \<^verbatim>\<open>logger(message)\<close>. A function is called with the message and returns (the
  default and the tests' loggers do nothing else). Any other value raises \<^verbatim>\<open>TypeError\<close>:
  that is the result \<open>None\<close>.
\<close>

definition emit :: "jsval \<Rightarrow> 'e diag \<Rightarrow> ('e, 'z) gate_scheme \<Rightarrow> ('e, 'z) gate_scheme option" where
  "emit f d g = (if callable f then Some (g\<lparr>logged := logged g @ [(f, d)]\<rparr>) else None)"

text \<open>
  \<^verbatim>\<open>asyncTimeout(delayMs)\<close> arms a timer and returns its promise; the caller that awaits it
  is resumed by a timer event.
\<close>

definition asyncTimeout :: "int \<Rightarrow> ('e, 'z) gate_scheme \<Rightarrow> ('e, 'z) gate_scheme" where
  "asyncTimeout delayMs g = g\<lparr>timeouts := timeouts g @ [delayMs]\<rparr>"

section \<open>\<^verbatim>\<open>ParallelLimiter\<close>\<close>

text \<open>
  A call of \<^verbatim>\<open>schedule\<close> is a coroutine. \<open>at\<close> is where it stands: \<open>Entry\<close> before its
  first statement, \<open>Polling\<close> suspended in \<^verbatim>\<open>await exports.asyncTimeout(this.retryMs)\<close>,
  \<open>Awaiting\<close> suspended in \<^verbatim>\<open>await promise\<close>, \<open>Returned v\<close> after \<^verbatim>\<open>return value\<close>,
  \<open>Thrown e\<close> after an exception left the body (the promise of \<^verbatim>\<open>schedule\<close> is rejected
  with \<open>e\<close>). \<open>invocations\<close> counts the calls of \<^verbatim>\<open>promiseProvider\<close>.
\<close>

datatype ('v, 'e) pc = Entry | Polling | Awaiting | Returned 'v | Thrown "'e exn"

record ('v, 'e) call =
  promiseProvider :: "('v, 'e) operation"
  at :: "('v, 'e) pc"
  invocations :: nat

record ('v, 'e) limiter = "'e gate" +
  calls :: "('v, 'e) call list"

text \<open>The constructor's options object; \<open>None\<close> and \<open>JSUndefined\<close> select the defaults.\<close>

record options =
  opt_maxParallel :: "int option"
  opt_retryMs :: "int option"
  opt_logger :: jsval
  opt_logRetries :: "bool option"

text \<open>\<^verbatim>\<open>logger?.debug ?? logger\<close>, line 62.\<close>

definition sink :: "jsval \<Rightarrow> jsval" where
  "sink lg = nullish_coalesce (optional_chain lg ''debug'') lg"

definition ParallelLimiter :: "options \<Rightarrow> ('v, 'e) limiter" where
  "ParallelLimiter opts =
     (let lg = (if opt_logger opts = JSUndefined then noop_logger else opt_logger opts)
      in \<lparr> maxParallel = (case opt_maxParallel opts of None \<Rightarrow> 1 | Some m \<Rightarrow> m),
           retryMs = (case opt_retryMs opts of None \<Rightarrow> 10 | Some r \<Rightarrow> r),
           logger = sink lg,
           logRetries = (case opt_logRetries opts of None \<Rightarrow> False | Some b \<Rightarrow> b),
           runningCount = 0,
           logged = [],
           timeouts = [],
           calls = [] \<rparr>)"

text \<open>The call \<open>c\<close> moves to the point \<open>p\<close>.\<close>

definition set_at :: "nat \<Rightarrow> ('v, 'e) pc \<Rightarrow> ('v, 'e) limiter \<Rightarrow> ('v, 'e) limiter" where
  "set_at c p L = L\<lparr>calls := (calls L)[c := (calls L ! c)\<lparr>at := p\<rparr>]\<rparr>"

text \<open>
  Lines 68 to 77 of \<^verbatim>\<open>schedule\<close>, run from the call or from a timer: one test of the
  \<^verbatim>\<open>while\<close> condition, then either the loop body up to its \<^verbatim>\<open>await\<close>, or the admission
  and the call of \<^verbatim>\<open>promiseProvider\<close>, which stands outside the \<^verbatim>\<open>try\<close> block. A logger
  call that raises leaves the body at once: at line 70 before the wait, at line 76 after
  the increment and before \<^verbatim>\<open>promiseProvider\<close> is called.
\<close>

definition schedule_admission :: "nat \<Rightarrow> ('v, 'e) limiter \<Rightarrow> ('v, 'e) limiter" where
  "schedule_admission c L =
     (if runningCount L \<ge> maxParallel L then
        (case (if logRetries L
               then emit (logger L) (MaxReached (runningCount L) (retryMs L)) L else Some L) of
           None \<Rightarrow> set_at c (Thrown TypeError) L
         | Some L1 \<Rightarrow> set_at c Polling (asyncTimeout (retryMs L1) L1))
      else
        let L1 = L\<lparr>runningCount := runningCount L + 1\<rparr>
        in (case emit (logger L1) (StartedPromise (runningCount L1) (maxParallel L1)) L1 of
              None \<Rightarrow> set_at c (Thrown TypeError) L1
            | Some L2 \<Rightarrow>
                let k = calls L2 ! c;
                    k1 = k\<lparr>invocations := invocations k + 1\<rparr>
                in (case promiseProvider k of
                      Throws e \<Rightarrow> L2\<lparr>calls := (calls L2)[c := k1\<lparr>at := Thrown e\<rparr>]\<rparr>
                    | Returns p \<Rightarrow> L2\<lparr>calls := (calls L2)[c := k1\<lparr>at := Awaiting\<rparr>]\<rparr>)))"

text \<open>
  The \<^verbatim>\<open>catch\<close> block, lines 83 to 86, entered with the exception \<open>e\<close>: the decrement, then
  the message, whose \<^verbatim>\<open>e.message\<close> raises \<^verbatim>\<open>TypeError\<close> when \<open>e\<close> is \<^verbatim>\<open>undefined\<close> or
  \<^verbatim>\<open>null\<close>, then the logger call, then \<^verbatim>\<open>throw e\<close>. An exception raised inside the block
  replaces \<open>e\<close>.
\<close>

definition catch_block :: "nat \<Rightarrow> 'e exn \<Rightarrow> ('v, 'e) limiter \<Rightarrow> ('v, 'e) limiter" where
  "catch_block c e L =
     (let L1 = L\<lparr>runningCount := runningCount L - 1\<rparr>
      in (case e of
            Nullish \<Rightarrow> set_at c (Thrown TypeError) L1
          | _ \<Rightarrow>
              (case emit (logger L1) (FailedPromise (runningCount L1) (maxParallel L1) e) L1 of
                 None \<Rightarrow> set_at c (Thrown TypeError) L1
               | Some L2 \<Rightarrow> set_at c (Thrown e) L2)))"

text \<open>
  Lines 78 to 87: the awaited promise has settled. On fulfilment the decrement and the
  logger call of line 81 stand inside the \<^verbatim>\<open>try\<close>: when that call raises, the \<^verbatim>\<open>catch\<close>
  block runs with the \<^verbatim>\<open>TypeError\<close> and decrements once more.
\<close>

definition schedule_completion :: "nat \<Rightarrow> ('v, 'e) limiter \<Rightarrow> ('v, 'e) limiter" where
  "schedule_completion c L =
     (case promiseProvider (calls L ! c) of
        Returns (Some (Resolves v)) \<Rightarrow>
          let L1 = L\<lparr>runningCount := runningCount L - 1\<rparr>
          in (case emit (logger L1) (FinalizedPromise (runningCount L1) (maxParallel L1)) L1 of
                None \<Rightarrow> catch_block c TypeError L1
              | Some L2 \<Rightarrow> set_at c (Returned v) L2)
      | Returns (Some (RejectsWith e)) \<Rightarrow> catch_block c e L
      | _ \<Rightarrow> L)"

text \<open>
  The events of the single-threaded event loop. Each runs one synchronous segment to its
  next \<^verbatim>\<open>await\<close>: a new call of \<^verbatim>\<open>schedule\<close>, the timer of a polling call, the settling
  of the promise a call awaits. An event that is not enabled leaves the state as it is.
\<close>

datatype ('v, 'e) event = Schedule "('v, 'e) operation" | TimerFires nat | PromiseSettles nat

fun limiter_step :: "('v, 'e) event \<Rightarrow> ('v, 'e) limiter \<Rightarrow> ('v, 'e) limiter" where
  "limiter_step (Schedule p) L =
     schedule_admission (length (calls L))
       (L\<lparr>calls := calls L @ [\<lparr>promiseProvider = p, at = Entry, invocations = 0\<rparr>]\<rparr>)"
| "limiter_step (TimerFires c) L =
     (if c < length (calls L) \<and> at (calls L ! c) = Polling then schedule_admission c L else L)"
| "limiter_step (PromiseSettles c) L =
     (if c < length (calls L) \<and> at (calls L ! c) = Awaiting then schedule_completion c L else L)"

definition limiter_run :: "('v, 'e) event list \<Rightarrow> ('v, 'e) limiter \<Rightarrow> ('v, 'e) limiter" where
  "limiter_run evs L = foldl (\<lambda>s ev. limiter_step ev s) L evs"

text \<open>The calls admitted and not yet completed.\<close>

definition awaiting :: "('v, 'e) call \<Rightarrow> bool" where
  "awaiting k = (at k = Awaiting)"

definition in_flight :: "('v, 'e) limiter \<Rightarrow> nat" where
  "in_flight L = length (filter awaiting (calls L))"

section \<open>\<^verbatim>\<open>noLimiter\<close>\<close>

text \<open>
  \<^verbatim>\<open>{schedule: async asyncRunner => asyncRunner()}\<close>: the body calls the operation at once
  and returns what it returns, so the promise of \<^verbatim>\<open>schedule\<close> takes the fate of the
  operation's promise, and is rejected when the operation raises. The function has no
  access to a counter, a logger or a timer: the effect traces pass through as they are.
  The result is the traces, the number of calls of the operation, and the fate of the
  returned promise.
\<close>

definition noLimiter_schedule ::
  "('e, 'z) gate_scheme \<Rightarrow> ('v, 'e) operation \<Rightarrow>
     ('e, 'z) gate_scheme \<times> nat \<times> ('v, 'e) settlement option" where
  "noLimiter_schedule g asyncRunner =
     (case asyncRunner of
        Throws e \<Rightarrow> (g, 1, Some (RejectsWith e))
      | Returns p \<Rightarrow> (g, 1, p))"

section \<open>\<^verbatim>\<open>allSettledParallelLimited\<close>\<close>

datatype status = fulfilled | rejected

record ('e, 'j) reason =
  error :: "'e exn"
  job :: 'j

text \<open>
  The objects pushed onto \<^verbatim>\<open>runs\<close>: \<^verbatim>\<open>{status: 'fulfilled', value}\<close> has no \<^verbatim>\<open>reason\<close>
  and \<^verbatim>\<open>{status: 'rejected', reason: {error, job}}\<close> has no \<^verbatim>\<open>value\<close>; an absent
  property is \<open>None\<close>.
\<close>

record ('j, 'v, 'e) settled =
  status :: status
  val :: "'v option"
  reason :: "('e, 'j) reason option"

text \<open>
  Where the body of \<^verbatim>\<open>allSettledParallelLimited\<close> stands: running and not yet suspended,
  suspended in the \<^verbatim>\<open>await\<close> of the admission loop (line 27), suspended in the
  \<^verbatim>\<open>await\<close> of the drain loop (line 47), returned (\<^verbatim>\<open>return runs\<close>, the promise is
  fulfilled with \<open>runs\<close>), or left by an exception (the promise is rejected).
\<close>

datatype 'e main = Running | AdmissionWait | DrainWait | Resolved | Rejected "'e exn"

text \<open>
  \<open>ix\<close> is the loop variable \<^verbatim>\<open>i\<close>. \<open>pending\<close> lists the jobs whose promise carries the
  \<^verbatim>\<open>then\<close>/\<^verbatim>\<open>catch\<close> handlers of line 34 and has not run them yet; \<open>invoked\<close> lists the
  jobs on which \<^verbatim>\<open>jobToPromise\<close> was called.
\<close>

record ('j, 'v, 'e) batch = "'e gate" +
  jobs :: "'j list"
  jobToPromise :: "'j \<Rightarrow> ('v, 'e) operation"
  runs :: "('j, 'v, 'e) settled list"
  ix :: nat
  main :: "'e main"
  pending :: "nat list"
  invoked :: "nat list"

text \<open>
  Lines 43 to 50: one test of the drain loop's condition. A logger call that raises at
  line 45 leaves the body.
\<close>

definition drain_loop :: "('j, 'v, 'e) batch \<Rightarrow> ('j, 'v, 'e) batch" where
  "drain_loop b =
     (if runningCount b \<ge> 1 then
        (case (if logRetries b
               then emit (logger b) (BatchWaiting (runningCount b) (retryMs b)) b else Some b) of
           None \<Rightarrow> b\<lparr>main := Rejected TypeError\<rparr>
         | Some b1 \<Rightarrow> (asyncTimeout (5 * retryMs b1) b1)\<lparr>main := DrainWait\<rparr>)
      else b\<lparr>main := Resolved\<rparr>)"

text \<open>
  Lines 22 to 41, from the test \<^verbatim>\<open>i < jobs.length\<close> on. The loop runs on without
  yielding until the admission loop has to wait, a logger call (line 25 or 31) or
  \<^verbatim>\<open>jobToPromise(job)\<close> raises (nothing catches it, the body is left), or the jobs are
  exhausted and the drain loop starts. The handlers attached by
  \<^verbatim>\<open>.then(...).catch(...)\<close> run in later events only.
\<close>

function for_loop :: "('j, 'v, 'e) batch \<Rightarrow> ('j, 'v, 'e) batch" where
  "for_loop b =
     (if ix b < length (jobs b) then
        (if runningCount b \<ge> maxParallel b then
           (case (if logRetries b
                  then emit (logger b)
                         (BatchMaxReached (ix b) (length (jobs b)) (runningCount b) (retryMs b)) b
                  else Some b) of
              None \<Rightarrow> b\<lparr>main := Rejected TypeError\<rparr>
            | Some b1 \<Rightarrow> (asyncTimeout (retryMs b1) b1)\<lparr>main := AdmissionWait\<rparr>)
         else
           let b1 = b\<lparr>runningCount := runningCount b + 1\<rparr>
           in (case emit (logger b1)
                      (BatchStarted (ix b1) (length (jobs b1)) (runningCount b1)) b1 of
                 None \<Rightarrow> b1\<lparr>main := Rejected TypeError\<rparr>
               | Some b2 \<Rightarrow>
                   let b3 = b2\<lparr>invoked := invoked b2 @ [ix b2]\<rparr>
                   in (case jobToPromise b3 (jobs b3 ! ix b3) of
                         Throws e \<Rightarrow> b3\<lparr>main := Rejected e\<rparr>
                       | Returns p \<Rightarrow>
                           for_loop (b3\<lparr>pending := pending b3 @ [ix b3], ix := ix b3 + 1\<rparr>))))
      else drain_loop b)"
  by pat_completeness auto
termination
  by (relation "measure (\<lambda>b. length (jobs b) - ix b)")
     (auto simp: emit_def Let_def split: if_splits)

declare for_loop.simps [simp del]

text \<open>
  The call itself: the defaults of the parameters are \<^verbatim>\<open>retryMs = 10\<close>,
  \<^verbatim>\<open>logger = () => {}\<close>, \<^verbatim>\<open>logRetries = false\<close> and \<^verbatim>\<open>jobToPromise = job => job()\<close>,
  which is the identity when the jobs are the operations themselves. The logger is called
  as it is given (no \<^verbatim>\<open>debug\<close> lookup here). The body runs up to its first \<^verbatim>\<open>await\<close>
  within the call.
\<close>

definition allSettledParallelLimited ::
  "'j list \<Rightarrow> ('j \<Rightarrow> ('v, 'e) operation) \<Rightarrow> int \<Rightarrow> int \<Rightarrow> jsval \<Rightarrow> bool \<Rightarrow> ('j, 'v, 'e) batch" where
  "allSettledParallelLimited js f m r lg lr =
     for_loop \<lparr> maxParallel = m, retryMs = r, logger = lg, logRetries = lr,
                runningCount = 0, logged = [], timeouts = [],
                jobs = js, jobToPromise = f, runs = [], ix = 0, main = Running,
                pending = [], invoked = [] \<rparr>"

text \<open>The handlers of line 34 to 40, run when the promise of job \<open>k\<close> has settled.\<close>

definition settle :: "nat \<Rightarrow> ('j, 'v, 'e) batch \<Rightarrow> ('j, 'v, 'e) batch" where
  "settle k b =
     (case jobToPromise b (jobs b ! k) of
        Returns (Some (Resolves v)) \<Rightarrow>
          b\<lparr>runningCount := runningCount b - 1,
            runs := runs b @ [\<lparr>status = fulfilled, val = Some v, reason = None\<rparr>],
            pending := remove1 k (pending b)\<rparr>
      | Returns (Some (RejectsWith e)) \<Rightarrow>
          b\<lparr>runningCount := runningCount b - 1,
            runs := runs b @ [\<lparr>status = rejected, val = None,
                               reason = Some \<lparr>error = e, job = jobs b ! k\<rparr>\<rparr>],
            pending := remove1 k (pending b)\<rparr>
      | _ \<Rightarrow> b)"

datatype batch_event = Timer | Settles nat

fun batch_step :: "batch_event \<Rightarrow> ('j, 'v, 'e) batch \<Rightarrow> ('j, 'v, 'e) batch" where
  "batch_step Timer b =
     (case main b of
        AdmissionWait \<Rightarrow> for_loop b
      | DrainWait \<Rightarrow> drain_loop b
      | _ \<Rightarrow> b)"
| "batch_step (Settles k) b = (if k \<in> set (pending b) then settle k b else b)"

definition batch_run :: "batch_event list \<Rightarrow> ('j, 'v, 'e) batch \<Rightarrow> ('j, 'v, 'e) batch" where
  "batch_run evs b = foldl (\<lambda>s ev. batch_step ev s) b evs"


section \<open>Notions used in the statements and their proofs\<close>

subsection \<open>Calls of \<^verbatim>\<open>schedule\<close>\<close>

text \<open>
  What the two segments of \<^verbatim>\<open>schedule\<close> do to the record of their call when the logger
  can be called: the admission counts the invocation and leaves the call awaiting its
  promise, or thrown when the operation raised; the completion leaves it returned or
  thrown, as the promise settled (a rejection with \<^verbatim>\<open>undefined\<close> or \<^verbatim>\<open>null\<close> ends in the
  \<^verbatim>\<open>TypeError\<close> of \<^verbatim>\<open>e.message\<close>). \<open>enter\<close> adds the record of a new call.
\<close>

definition admitted_call :: "('v, 'e) call \<Rightarrow> ('v, 'e) call" where
  "admitted_call k =
     k\<lparr>invocations := invocations k + 1,
       at := (case promiseProvider k of Throws e \<Rightarrow> Thrown e | Returns p \<Rightarrow> Awaiting)\<rparr>"

definition thrown_of :: "'e exn \<Rightarrow> 'e exn" where
  "thrown_of e = (case e of Nullish \<Rightarrow> TypeError | _ \<Rightarrow> e)"

definition completed_call :: "('v, 'e) call \<Rightarrow> ('v, 'e) call" where
  "completed_call k =
     k\<lparr>at := (case promiseProvider k of
                 Returns (Some (Resolves v)) \<Rightarrow> Returned v
               | Returns (Some (RejectsWith e)) \<Rightarrow> Thrown (thrown_of e)
               | _ \<Rightarrow> at k)\<rparr>"

definition enter :: "('v, 'e) operation \<Rightarrow> ('v, 'e) limiter \<Rightarrow> ('v, 'e) limiter" where
  "enter p L = L\<lparr>calls := calls L @ [\<lparr>promiseProvider = p, at = Entry, invocations = 0\<rparr>]\<rparr>"

text \<open>
  An operation settles when it returns a promise that is fulfilled or rejected.
  \<open>admitted\<close>: the call has left the admission loop (it awaits its promise, has returned
  or has thrown); on a limiter whose logger is a function a call leaves the loop through
  the admission only. A call has leaked when it is over and the counter still counts it:
  its operation raised synchronously.
\<close>

definition settles :: "('v, 'e) operation \<Rightarrow> bool" where
  "settles p = (case p of Returns (Some s) \<Rightarrow> True | _ \<Rightarrow> False)"


definition leaked :: "('v, 'e) call \<Rightarrow> bool" where
  "leaked k =
     (case at k of
        Thrown e \<Rightarrow> (case promiseProvider k of Throws x \<Rightarrow> True | Returns p \<Rightarrow> False)
      | _ \<Rightarrow> False)"

text \<open>
  The invariant of the limiter. With a logger that can be called (\<open>cl\<close>), each call has
  invoked its operation once if it is admitted and not at all before, and
  \<^verbatim>\<open>runningCount\<close> counts the calls awaiting their promise and the leaked ones. With a
  logger that cannot be called no call gets past its first logger call: no operation is
  ever invoked, no call awaits a promise, and the counter only goes up.
\<close>

definition call_ok :: "bool \<Rightarrow> ('v, 'e) call \<Rightarrow> bool" where
  "call_ok cl k =
     (case at k of
        Entry \<Rightarrow> invocations k = 0
      | Polling \<Rightarrow> invocations k = 0
      | Awaiting \<Rightarrow> cl \<and> invocations k = 1 \<and>
          (case promiseProvider k of Returns p \<Rightarrow> True | Throws e \<Rightarrow> False)
      | Returned v \<Rightarrow> cl \<and> invocations k = 1 \<and> promiseProvider k = Returns (Some (Resolves v))
      | Thrown e \<Rightarrow> invocations k = (if cl then 1 else 0))"

definition limiter_inv :: "('v, 'e) limiter \<Rightarrow> bool" where
  "limiter_inv L =
     ((\<forall>j < length (calls L). call_ok (callable (logger L)) (calls L ! j)) \<and>
      (if callable (logger L)
       then runningCount L =
              int (length (filter awaiting (calls L))) + int (length (filter leaked (calls L)))
       else 0 \<le> runningCount L))"

definition cap_ok :: "('e, 'z) gate_scheme \<Rightarrow> bool" where
  "cap_ok g = (runningCount g \<le> maxParallel g)"




subsection \<open>Batch runs\<close>

text \<open>
  The state before the first statement of the loop, its parameters, and the ways one
  test of a loop condition changes the state when the logger call goes through: the
  admission (counter, start message, call of \<^verbatim>\<open>jobToPromise\<close>), the handlers attached to
  the returned promise together with \<^verbatim>\<open>i++\<close>, the wait of the admission loop, the
  exception that leaves the body, the wait of the drain loop.
\<close>

definition initial :: "'j list \<Rightarrow> ('j \<Rightarrow> ('v, 'e) operation) \<Rightarrow> int \<Rightarrow> int \<Rightarrow> jsval \<Rightarrow> bool \<Rightarrow> ('j, 'v, 'e) batch" where
  "initial js f m r lg lr =
     \<lparr> maxParallel = m, retryMs = r, logger = lg, logRetries = lr,
       runningCount = 0, logged = [], timeouts = [],
       jobs = js, jobToPromise = f, runs = [], ix = 0, main = Running,
       pending = [], invoked = [] \<rparr>"

definition params :: "('j, 'v, 'e) batch \<Rightarrow> 'j list \<times> ('j \<Rightarrow> ('v, 'e) operation) \<times> int \<times> int \<times> jsval \<times> bool" where
  "params b = (jobs b, jobToPromise b, maxParallel b, retryMs b, logger b, logRetries b)"

definition admit_job :: "('j, 'v, 'e) batch \<Rightarrow> ('j, 'v, 'e) batch" where
  "admit_job b =
     b\<lparr>runningCount := runningCount b + 1,
       logged := logged b @ [(logger b, BatchStarted (ix b) (length (jobs b)) (runningCount b + 1))],
       invoked := invoked b @ [ix b]\<rparr>"

definition attach :: "('j, 'v, 'e) batch \<Rightarrow> ('j, 'v, 'e) batch" where
  "attach b = b\<lparr>pending := pending b @ [ix b], ix := ix b + 1\<rparr>"

definition admission_wait :: "('j, 'v, 'e) batch \<Rightarrow> ('j, 'v, 'e) batch" where
  "admission_wait b =
     b\<lparr>logged := (if logRetries b
                    then logged b @ [(logger b, BatchMaxReached (ix b) (length (jobs b)) (runningCount b) (retryMs b))]
                    else logged b),
       timeouts := timeouts b @ [retryMs b],
       main := AdmissionWait\<rparr>"

definition abort :: "'e exn \<Rightarrow> ('j, 'v, 'e) batch \<Rightarrow> ('j, 'v, 'e) batch" where
  "abort e b = b\<lparr>main := Rejected e\<rparr>"

definition drain_wait :: "('j, 'v, 'e) batch \<Rightarrow> ('j, 'v, 'e) batch" where
  "drain_wait b =
     b\<lparr>logged := (if logRetries b
                    then logged b @ [(logger b, BatchWaiting (runningCount b) (retryMs b))]
                    else logged b),
       timeouts := timeouts b @ [5 * retryMs b],
       main := DrainWait\<rparr>"

text \<open>
  The record a job leaves in \<^verbatim>\<open>runs\<close> when its promise settles, and the record expected
  of a job, if any: none for a job that raises or whose promise stays pending.
\<close>

definition record_of :: "'j \<Rightarrow> ('v, 'e) settlement \<Rightarrow> ('j, 'v, 'e) settled" where
  "record_of j s =
     (case s of
        Resolves v \<Rightarrow> \<lparr>status = fulfilled, val = Some v, reason = None\<rparr>
      | RejectsWith e \<Rightarrow> \<lparr>status = rejected, val = None, reason = Some \<lparr>error = e, job = j\<rparr>\<rparr>)"

definition outcome :: "('j \<Rightarrow> ('v, 'e) operation) \<Rightarrow> 'j \<Rightarrow> ('j, 'v, 'e) settled option" where
  "outcome f j = (case f j of Returns (Some s) \<Rightarrow> Some (record_of j s) | _ \<Rightarrow> None)"


text \<open>
  The invariant of a batch run. The counter counts the pending promises, and one more at
  most once the body was left by an exception (\<open>leak\<close>): the admission that a raise of
  the start message or of \<^verbatim>\<open>jobToPromise\<close> leaves behind. The records pushed so far and the
  outcomes of the pending jobs together are the outcomes of the jobs dispatched so far.
  \<open>main_inv\<close> relates where the body stands to the loop variable.
\<close>

fun leak :: "'e main \<Rightarrow> int" where
  "leak (Rejected e) = 1"
| "leak m = 0"

definition batch_inv :: "('j, 'v, 'e) batch \<Rightarrow> bool" where
  "batch_inv b =
     (ix b \<le> length (jobs b) \<and>
      (\<forall>k \<in> set (pending b). k < ix b) \<and>
      int (length (pending b)) \<le> runningCount b \<and>
      runningCount b \<le> int (length (pending b)) + leak (main b) \<and>
      image_mset Some (mset (runs b)) +
        image_mset (\<lambda>k. outcome (jobToPromise b) (jobs b ! k)) (mset (pending b)) =
        image_mset (outcome (jobToPromise b)) (mset (take (ix b) (jobs b))))"

definition main_inv :: "('j, 'v, 'e) batch \<Rightarrow> bool" where
  "main_inv b =
     (case main b of
        Running \<Rightarrow> False
      | AdmissionWait \<Rightarrow> ix b < length (jobs b)
      | DrainWait \<Rightarrow> ix b = length (jobs b)
      | Resolved \<Rightarrow> ix b = length (jobs b) \<and> runningCount b \<le> 0
      | Rejected e \<Rightarrow> True)"


fun admission_poll :: "'e diag \<Rightarrow> bool" where
  "admission_poll (BatchMaxReached i n c r) = True"
| "admission_poll (MaxReached c r) = True"
| "admission_poll d = False"

fun drain_poll :: "'e diag \<Rightarrow> bool" where
  "drain_poll (BatchWaiting c r) = True"
| "drain_poll d = False"

definition quiet :: "('j, 'v, 'e) batch \<Rightarrow> bool" where
  "quiet b = (main b \<noteq> AdmissionWait \<and> (\<forall>x \<in> set (logged b). \<not> admission_poll (snd x)))"





subsection \<open>Concrete inputs\<close>

text \<open>
  Options, operations and event sequences at which the theorems below are evaluated:
  limiters of capacity 1 and 0, one with a console-like logger, one whose logger has
  \<^verbatim>\<open>debug: null\<close>, two with \<^verbatim>\<open>logger: null\<close>; an operation resolving to 7; a job function
  whose job 1 is rejected, one whose promises never settle; an unending run that settles
  and fires what a batch of three jobs waits for.
\<close>

definition opts1 :: options where
  "opts1 = \<lparr>opt_maxParallel = Some 1, opt_retryMs = None, opt_logger = JSUndefined,
             opt_logRetries = Some True\<rparr>"

definition evs1 :: "(nat, string) event list" where
  "evs1 = [Schedule (Returns (Some (Resolves 7))),
           Schedule (Returns (Some (RejectsWith (Raised ''boom'')))),
           TimerFires 1, PromiseSettles 0, TimerFires 1]"



definition console :: jsval where
  "console = JSObject [(''log'', JSFunction ''log'' []), (''debug'', JSFunction ''debug'' [])]"

definition opts2 :: options where
  "opts2 = \<lparr>opt_maxParallel = None, opt_retryMs = None, opt_logger = console, opt_logRetries = Some True\<rparr>"

definition evs2 :: "(nat, string) event list" where
  "evs2 = [Schedule (Throws (Raised ''boom'')), Schedule (Returns (Some (Resolves 7))), TimerFires 1]"

definition null_debug :: jsval where
  "null_debug = JSObject [(''debug'', JSNull)]"

definition opts3 :: options where
  "opts3 = \<lparr>opt_maxParallel = None, opt_retryMs = None, opt_logger = null_debug, opt_logRetries = None\<rparr>"




definition job1 :: "nat \<Rightarrow> (nat, string) operation" where
  "job1 j = (if j = 1 then Returns (Some (RejectsWith (Raised ''boom'')))
             else Returns (Some (Resolves (10 * j))))"




section \<open>Invariants of the limiter\<close>

subsection \<open>The segments, case by case\<close>

lemma count_update_nat:
  "c < length xs \<Longrightarrow>
     length (filter P (xs[c := y])) + (if P (xs ! c) then 1 else 0) =
       length (filter P xs) + (if P y then 1 else 0)"
proof (induction xs arbitrary: c)
  case Nil then show ?case by simp
next
  case (Cons x xs)
  show ?case
  proof (cases c)
    case 0 then show ?thesis by simp
  next
    case (Suc n)
    with Cons.prems have "n < length xs" by simp
    from Cons.IH [OF this] Suc show ?thesis by simp
  qed
qed

lemma count_update:
  "c < length xs \<Longrightarrow>
     int (length (filter P (xs[c := y]))) =
       int (length (filter P xs)) - (if P (xs ! c) then 1 else 0) + (if P y then 1 else 0)"
  using count_update_nat [of c xs P y] by (simp split: if_splits)

lemma admission_frame:
  "maxParallel (schedule_admission c L) = maxParallel L \<and>
   retryMs (schedule_admission c L) = retryMs L \<and> logger (schedule_admission c L) = logger L \<and>
   logRetries (schedule_admission c L) = logRetries L \<and>
   length (calls (schedule_admission c L)) = length (calls L)"
  by (simp add: schedule_admission_def set_at_def Let_def emit_def asyncTimeout_def
        split: operation.splits)

lemma admission_blocked:
  assumes "maxParallel L \<le> runningCount L" "logRetries L \<longrightarrow> callable (logger L)"
  shows "runningCount (schedule_admission c L) = runningCount L"
    and "calls (schedule_admission c L) = (calls L)[c := (calls L ! c)\<lparr>at := Polling\<rparr>]"
    and "timeouts (schedule_admission c L) = timeouts L @ [retryMs L]"
  using assms by (simp_all add: schedule_admission_def set_at_def emit_def asyncTimeout_def)

lemma admission_blocked_raise:
  assumes "maxParallel L \<le> runningCount L" "logRetries L" "\<not> callable (logger L)"
  shows "runningCount (schedule_admission c L) = runningCount L"
    and "calls (schedule_admission c L) = (calls L)[c := (calls L ! c)\<lparr>at := Thrown TypeError\<rparr>]"
  using assms by (simp_all add: schedule_admission_def set_at_def emit_def)

lemma admission_admitted:
  assumes "runningCount L < maxParallel L" "callable (logger L)"
  shows "runningCount (schedule_admission c L) = runningCount L + 1"
    and "calls (schedule_admission c L) = (calls L)[c := admitted_call (calls L ! c)]"
  using assms
  by (simp_all add: schedule_admission_def Let_def emit_def admitted_call_def split: operation.split)

lemma admission_raise:
  assumes "runningCount L < maxParallel L" "\<not> callable (logger L)"
  shows "runningCount (schedule_admission c L) = runningCount L + 1"
    and "calls (schedule_admission c L) = (calls L)[c := (calls L ! c)\<lparr>at := Thrown TypeError\<rparr>]"
  using assms by (simp_all add: schedule_admission_def set_at_def Let_def emit_def)

lemma catch_block_callable:
  assumes "callable (logger L)"
  shows "runningCount (catch_block c e L) = runningCount L - 1"
    and "calls (catch_block c e L) = (calls L)[c := (calls L ! c)\<lparr>at := Thrown (thrown_of e)\<rparr>]"
  using assms
  by (simp_all add: catch_block_def set_at_def Let_def emit_def thrown_of_def split: exn.splits)

lemma catch_block_frame:
  "maxParallel (catch_block c e L) = maxParallel L \<and>
   retryMs (catch_block c e L) = retryMs L \<and> logger (catch_block c e L) = logger L \<and>
   logRetries (catch_block c e L) = logRetries L \<and>
   length (calls (catch_block c e L)) = length (calls L) \<and>
   runningCount (catch_block c e L) = runningCount L - 1 \<and>
   timeouts (catch_block c e L) = timeouts L"
  by (simp add: catch_block_def set_at_def Let_def emit_def split: exn.splits)

lemma completion_settled:
  assumes "settles (promiseProvider (calls L ! c))" "callable (logger L)"
  shows "runningCount (schedule_completion c L) = runningCount L - 1"
    and "calls (schedule_completion c L) = (calls L)[c := completed_call (calls L ! c)]"
  using assms
  by (simp_all add: schedule_completion_def settles_def Let_def emit_def set_at_def
        completed_call_def catch_block_callable
        split: operation.splits option.splits settlement.splits)

lemma completion_pending:
  assumes "\<not> settles (promiseProvider (calls L ! c))"
  shows "schedule_completion c L = L"
  using assms
  by (simp add: schedule_completion_def settles_def
        split: operation.splits option.splits settlement.splits)

lemma completion_frame:
  "maxParallel (schedule_completion c L) = maxParallel L \<and>
   retryMs (schedule_completion c L) = retryMs L \<and> logger (schedule_completion c L) = logger L \<and>
   logRetries (schedule_completion c L) = logRetries L \<and>
   length (calls (schedule_completion c L)) = length (calls L) \<and>
   runningCount (schedule_completion c L) \<le> runningCount L \<and>
   timeouts (schedule_completion c L) = timeouts L"
  by (simp add: schedule_completion_def set_at_def Let_def emit_def catch_block_frame
        split: operation.splits option.splits settlement.splits)

lemma admitted_call_facts:
  assumes "at k = Entry \<or> at k = Polling" "call_ok True k"
  shows "call_ok True (admitted_call k)"
    and "\<not> awaiting k" and "\<not> leaked k"
    and "(if awaiting (admitted_call k) then 1 else 0) + (if leaked (admitted_call k) then 1 else 0) = (1::int)"
  using assms
  by (auto simp: call_ok_def admitted_call_def awaiting_def leaked_def split: operation.splits)

lemma polling_call_facts:
  assumes "at k = Entry \<or> at k = Polling" "call_ok cl k"
  shows "call_ok cl (k\<lparr>at := Polling\<rparr>)"
    and "\<not> awaiting k" and "\<not> leaked k"
    and "\<not> awaiting (k\<lparr>at := Polling\<rparr>)" and "\<not> leaked (k\<lparr>at := Polling\<rparr>)"
  using assms by (auto simp: call_ok_def awaiting_def leaked_def)

lemma raised_call_facts:
  assumes "at k = Entry \<or> at k = Polling" "call_ok False k"
  shows "call_ok False (k\<lparr>at := Thrown TypeError\<rparr>)"
  using assms by (auto simp: call_ok_def)

lemma completed_call_facts:
  assumes "at k = Awaiting" "call_ok True k" "settles (promiseProvider k)"
  shows "call_ok True (completed_call k)"
    and "awaiting k" and "\<not> leaked k"
    and "\<not> awaiting (completed_call k)" and "\<not> leaked (completed_call k)"
  using assms
  by (auto simp: call_ok_def completed_call_def awaiting_def leaked_def settles_def
        split: operation.splits option.splits settlement.splits)

subsection \<open>Invocations and the counter\<close>

lemma limiter_inv_callable:
  "callable (logger L) \<Longrightarrow>
   limiter_inv L =
     ((\<forall>j < length (calls L). call_ok True (calls L ! j)) \<and>
      runningCount L =
        int (length (filter awaiting (calls L))) + int (length (filter leaked (calls L))))"
  by (simp add: limiter_inv_def)

lemma limiter_inv_uncallable:
  "\<not> callable (logger L) \<Longrightarrow>
   limiter_inv L = ((\<forall>j < length (calls L). call_ok False (calls L ! j)) \<and> 0 \<le> runningCount L)"
  by (simp add: limiter_inv_def)

lemma admission_inv:
  assumes inv: "limiter_inv L" and c: "c < length (calls L)"
    and at: "at (calls L ! c) = Entry \<or> at (calls L ! c) = Polling"
  shows "limiter_inv (schedule_admission c L)"
proof (cases "callable (logger L)")
  case cl: True
  from admission_frame [of c L] cl have cl': "callable (logger (schedule_admission c L))" by simp
  from inv have i: "\<forall>j < length (calls L). call_ok True (calls L ! j)"
    "runningCount L = int (length (filter awaiting (calls L))) + int (length (filter leaked (calls L)))"
    by (simp_all add: limiter_inv_callable [OF cl])
  from i c have ok: "call_ok True (calls L ! c)" by simp
  show ?thesis
  proof (cases "maxParallel L \<le> runningCount L")
    case True
    from cl have lg: "logRetries L \<longrightarrow> callable (logger L)" by simp
    note b = admission_blocked [OF True lg, of c] and f = polling_call_facts [OF at ok]
    from i c f show ?thesis
      unfolding limiter_inv_callable [OF cl'] b(1,2)
      by (simp add: nth_list_update count_update)
  next
    case False
    then have lt: "runningCount L < maxParallel L" by simp
    note a = admission_admitted [OF lt cl, of c] and f = admitted_call_facts [OF at ok]
    from i c f show ?thesis
      unfolding limiter_inv_callable [OF cl'] a
      by (simp add: nth_list_update count_update split: if_splits)
  qed
next
  case nc: False
  from admission_frame [of c L] nc have nc': "\<not> callable (logger (schedule_admission c L))" by simp
  from inv have i: "\<forall>j < length (calls L). call_ok False (calls L ! j)" "0 \<le> runningCount L"
    by (simp_all add: limiter_inv_uncallable [OF nc])
  from i c have ok: "call_ok False (calls L ! c)" by simp
  show ?thesis
  proof (cases "maxParallel L \<le> runningCount L")
    case True
    show ?thesis
    proof (cases "logRetries L")
      case lr: True
      note b = admission_blocked_raise [OF True lr nc, of c] and f = raised_call_facts [OF at ok]
      from i c f show ?thesis
        unfolding limiter_inv_uncallable [OF nc'] b
        by (simp add: nth_list_update)
    next
      case False
      then have lg: "logRetries L \<longrightarrow> callable (logger L)" by simp
      note b = admission_blocked [OF True lg, of c] and f = polling_call_facts [OF at ok]
      from i c f show ?thesis
        unfolding limiter_inv_uncallable [OF nc'] b(1,2)
        by (simp add: nth_list_update)
    qed
  next
    case False
    then have lt: "runningCount L < maxParallel L" by simp
    note a = admission_raise [OF lt nc, of c] and f = raised_call_facts [OF at ok]
    from i c f show ?thesis
      unfolding limiter_inv_uncallable [OF nc'] a
      by (simp add: nth_list_update)
  qed
qed

lemma completion_inv:
  assumes inv: "limiter_inv L" and c: "c < length (calls L)"
    and at: "at (calls L ! c) = Awaiting"
  shows "limiter_inv (schedule_completion c L)"
proof (cases "settles (promiseProvider (calls L ! c))")
  case True
  from inv c have "call_ok (callable (logger L)) (calls L ! c)" by (simp add: limiter_inv_def)
  with at have cl: "callable (logger L)" by (simp add: call_ok_def)
  from completion_frame [of c L] cl have cl': "callable (logger (schedule_completion c L))" by simp
  from inv have i: "\<forall>j < length (calls L). call_ok True (calls L ! j)"
    "runningCount L = int (length (filter awaiting (calls L))) + int (length (filter leaked (calls L)))"
    by (simp_all add: limiter_inv_callable [OF cl])
  from i c have ok: "call_ok True (calls L ! c)" by simp
  note s = completion_settled [OF True cl] and f = completed_call_facts [OF at ok True]
  from i c f show ?thesis
    unfolding limiter_inv_callable [OF cl'] s
    by (simp add: nth_list_update count_update)
next
  case False
  with inv show ?thesis by (simp add: completion_pending)
qed

lemma limiter_run_induct:
  assumes "P L" and "\<And>ev s. P s \<Longrightarrow> P (limiter_step ev s)"
  shows "P (limiter_run evs L)"
  unfolding limiter_run_def using assms(1)
  by (induction evs arbitrary: L) (simp_all add: assms(2))



lemma step_Schedule: "limiter_step (Schedule p) L = schedule_admission (length (calls L)) (enter p L)"
  by (simp add: enter_def)

lemma enter_inv:
  assumes "limiter_inv L"
  shows "limiter_inv (enter p L)"
proof -
  have fr: "logger (enter p L) = logger L" "runningCount (enter p L) = runningCount L"
    "length (calls (enter p L)) = Suc (length (calls L))"
    by (simp_all add: enter_def)
  have c: "call_ok (callable (logger L)) (calls (enter p L) ! j)" if "j < Suc (length (calls L))" for j
  proof (cases "j < length (calls L)")
    case True
    with assms show ?thesis by (simp add: enter_def nth_append limiter_inv_def)
  next
    case False
    with that have "j = length (calls L)" by simp
    then show ?thesis by (simp add: enter_def call_ok_def)
  qed
  have f: "filter awaiting (calls (enter p L)) = filter awaiting (calls L)"
    "filter leaked (calls (enter p L)) = filter leaked (calls L)"
    by (simp_all add: enter_def awaiting_def leaked_def)
  from assms show ?thesis unfolding limiter_inv_def fr f by (simp add: c)
qed

lemma limiter_step_inv: "limiter_inv L \<Longrightarrow> limiter_inv (limiter_step ev L)"
proof (cases ev)
  case (Schedule p)
  assume "limiter_inv L"
  then have "limiter_inv (enter p L)" by (rule enter_inv)
  then have "limiter_inv (schedule_admission (length (calls L)) (enter p L))"
    by (rule admission_inv) (simp_all add: enter_def)
  with Schedule show ?thesis by (simp only: step_Schedule)
next
  case (TimerFires c)
  assume "limiter_inv L"
  with TimerFires show ?thesis by (simp add: admission_inv)
next
  case (PromiseSettles c)
  assume "limiter_inv L"
  with PromiseSettles show ?thesis by (simp add: completion_inv)
qed

lemma ParallelLimiter_inv: "limiter_inv (ParallelLimiter opts)"
  by (simp add: limiter_inv_def ParallelLimiter_def Let_def)

lemma limiter_run_inv: "limiter_inv L \<Longrightarrow> limiter_inv (limiter_run evs L)"
  by (rule limiter_run_induct) (simp_all add: limiter_step_inv)


lemma in_flight_le: "limiter_inv L \<Longrightarrow> int (in_flight L) \<le> runningCount L"
proof (cases "callable (logger L)")
  case True
  assume "limiter_inv L"
  with True show ?thesis by (simp add: in_flight_def limiter_inv_def)
next
  case False
  assume inv: "limiter_inv L"
  have "\<not> awaiting k" if "k \<in> set (calls L)" for k
  proof -
    from that obtain j where "j < length (calls L)" "k = calls L ! j"
      by (auto simp: in_set_conv_nth)
    with inv have "call_ok False k" by (simp add: limiter_inv_uncallable [OF False])
    then show ?thesis by (auto simp: call_ok_def awaiting_def)
  qed
  then have "filter awaiting (calls L) = []" by (simp add: filter_empty_conv)
  with inv show ?thesis by (simp add: in_flight_def limiter_inv_uncallable [OF False])
qed

subsection \<open>The capacity bound and the parameters\<close>

lemma admission_cap: "cap_ok L \<Longrightarrow> cap_ok (schedule_admission c L)"
proof (cases "maxParallel L \<le> runningCount L")
  case True
  assume "cap_ok L"
  with True show ?thesis
    by (cases "logRetries L \<longrightarrow> callable (logger L)")
       (simp_all add: cap_ok_def admission_blocked admission_blocked_raise admission_frame)
next
  case False
  assume "cap_ok L"
  with False show ?thesis
    by (cases "callable (logger L)")
       (simp_all add: cap_ok_def admission_admitted admission_raise admission_frame)
qed

lemma completion_cap: "cap_ok L \<Longrightarrow> cap_ok (schedule_completion c L)"
  using completion_frame [of c L] by (simp add: cap_ok_def)

lemma limiter_step_cap: "cap_ok L \<Longrightarrow> cap_ok (limiter_step ev L)"
proof (cases ev)
  case (Schedule p)
  assume "cap_ok L"
  then have "cap_ok (enter p L)" by (simp add: cap_ok_def enter_def)
  then show ?thesis unfolding Schedule step_Schedule by (rule admission_cap)
next
  case (TimerFires c)
  assume "cap_ok L"
  with TimerFires show ?thesis by (simp add: admission_cap)
next
  case (PromiseSettles c)
  assume "cap_ok L"
  with PromiseSettles show ?thesis by (simp add: completion_cap)
qed

lemma limiter_run_cap: "cap_ok L \<Longrightarrow> cap_ok (limiter_run evs L)"
  by (rule limiter_run_induct) (simp_all add: limiter_step_cap)

lemma limiter_step_frame:
  "maxParallel (limiter_step ev L) = maxParallel L \<and> retryMs (limiter_step ev L) = retryMs L \<and>
   logger (limiter_step ev L) = logger L \<and> logRetries (limiter_step ev L) = logRetries L"
proof (cases ev)
  case (Schedule p)
  from admission_frame [of "length (calls L)" "enter p L"] show ?thesis
    unfolding Schedule step_Schedule by (simp add: enter_def)
next
  case (TimerFires c)
  with admission_frame [of c L] show ?thesis by simp
next
  case (PromiseSettles c)
  with completion_frame [of c L] show ?thesis by simp
qed

lemma limiter_run_frame:
  "maxParallel (limiter_run evs L) = maxParallel L \<and> retryMs (limiter_run evs L) = retryMs L \<and>
   logger (limiter_run evs L) = logger L \<and> logRetries (limiter_run evs L) = logRetries L"
  by (rule limiter_run_induct) (simp_all add: limiter_step_frame)

subsection \<open>Outcomes pass through\<close>

text \<open>
  The two paths through the \<^verbatim>\<open>try\<close> block, with a logger that can be called: when the
  awaited promise settles, the counter goes down by one and the call returns the value, or
  throws the error, that the promise carries; a rejection with \<^verbatim>\<open>undefined\<close> or \<^verbatim>\<open>null\<close>
  is replaced by the \<^verbatim>\<open>TypeError\<close> of \<^verbatim>\<open>e.message\<close>.
\<close>

lemma settled_call_passes_outcome:
  assumes "c < length (calls L)" and "at (calls L ! c) = Awaiting"
    and "promiseProvider (calls L ! c) = Returns (Some s)" and "callable (logger L)"
  shows "runningCount (limiter_step (PromiseSettles c) L) = runningCount L - 1 \<and>
         at (calls (limiter_step (PromiseSettles c) L) ! c) =
           (case s of Resolves v \<Rightarrow> Returned v | RejectsWith e \<Rightarrow> Thrown (thrown_of e))"
proof -
  from assms(3) have "settles (promiseProvider (calls L ! c))" by (simp add: settles_def)
  from completion_settled [OF this assms(4)] assms show ?thesis
    by (simp add: completed_call_def split: settlement.splits)
qed

subsection \<open>Admission\<close>



subsection \<open>A capacity of zero or less\<close>






subsection \<open>The sink\<close>

lemma sink_run:
  fixes L :: "('v, 'e) limiter"
  assumes "set (logged L) \<subseteq> {logger L} \<times> UNIV"
  shows "logger (limiter_run evs L) = logger L \<and> set (logged (limiter_run evs L)) \<subseteq> {logger L} \<times> UNIV"
proof (rule limiter_run_induct)
  show "logger L = logger L \<and> set (logged L) \<subseteq> {logger L} \<times> UNIV" using assms by simp
next
  fix ev and s :: "('v, 'e) limiter"
  assume a: "logger s = logger L \<and> set (logged s) \<subseteq> {logger L} \<times> UNIV"
  have adm: "logger (schedule_admission c t) = logger t \<and>
      set (logged (schedule_admission c t)) \<subseteq> set (logged t) \<union> {logger t} \<times> UNIV" for c and t :: "('v, 'e) limiter"
    by (auto simp: schedule_admission_def set_at_def Let_def emit_def asyncTimeout_def
          split: operation.splits)
  have cat: "logger (catch_block c e t) = logger t \<and>
      set (logged (catch_block c e t)) \<subseteq> set (logged t) \<union> {logger t} \<times> UNIV"
    for c e and t :: "('v, 'e) limiter"
    by (auto simp: catch_block_def set_at_def Let_def emit_def split: exn.splits)
  have com: "logger (schedule_completion c t) = logger t \<and>
      set (logged (schedule_completion c t)) \<subseteq> set (logged t) \<union> {logger t} \<times> UNIV" for c and t :: "('v, 'e) limiter"
  proof (cases "promiseProvider (calls t ! c)")
    case (Throws e)
    then show ?thesis by (simp add: schedule_completion_def)
  next
    case (Returns p)
    show ?thesis
    proof (cases p)
      case None
      with Returns show ?thesis by (simp add: schedule_completion_def)
    next
      case (Some s)
      show ?thesis
      proof (cases s)
        case (Resolves v)
        with Returns Some cat [of c TypeError "t\<lparr>runningCount := runningCount t - 1\<rparr>"]
        show ?thesis
          by (auto simp: schedule_completion_def set_at_def Let_def emit_def)
      next
        case (RejectsWith e)
        with Returns Some cat [of c e t] show ?thesis by (simp add: schedule_completion_def)
      qed
    qed
  qed
  have ent: "logger (enter p t) = logger t \<and> logged (enter p t) = logged t" for p and t :: "('v, 'e) limiter"
    by (simp add: enter_def)
  have "logger (limiter_step ev s) = logger s \<and>
      set (logged (limiter_step ev s)) \<subseteq> set (logged s) \<union> {logger s} \<times> UNIV"
  proof (cases ev)
    case (Schedule p)
    from adm [of "length (calls s)" "enter p s"]
    have "logger (schedule_admission (length (calls s)) (enter p s)) = logger s \<and>
      set (logged (schedule_admission (length (calls s)) (enter p s))) \<subseteq> set (logged s) \<union> {logger s} \<times> UNIV"
      by (simp add: ent)
    then show ?thesis by (simp only: Schedule step_Schedule)
  next
    case (TimerFires c)
    with adm [of c s] show ?thesis by auto
  next
    case (PromiseSettles c)
    with com [of c s] show ?thesis by auto
  qed
  with a show "logger (limiter_step ev s) = logger L \<and> set (logged (limiter_step ev s)) \<subseteq> {logger L} \<times> UNIV"
    by auto
qed

section \<open>Invariants of the batch runner\<close>

subsection \<open>The loops, case by case\<close>

lemma drain_loop_resolves:
  "runningCount b < 1 \<Longrightarrow> drain_loop b = b\<lparr>main := Resolved\<rparr>"
  by (simp add: drain_loop_def)

lemma drain_loop_waits:
  "1 \<le> runningCount b \<Longrightarrow> logRetries b \<longrightarrow> callable (logger b) \<Longrightarrow> drain_loop b = drain_wait b"
  by (simp add: drain_loop_def emit_def asyncTimeout_def drain_wait_def)

lemma drain_loop_raises:
  "1 \<le> runningCount b \<Longrightarrow> logRetries b \<Longrightarrow> \<not> callable (logger b) \<Longrightarrow>
   drain_loop b = abort TypeError b"
  by (simp add: drain_loop_def emit_def abort_def)


lemma drain_loop_cases:
  assumes "runningCount b < 1 \<Longrightarrow> P (b\<lparr>main := Resolved\<rparr>)"
    and "1 \<le> runningCount b \<Longrightarrow> logRetries b \<longrightarrow> callable (logger b) \<Longrightarrow> P (drain_wait b)"
    and "1 \<le> runningCount b \<Longrightarrow> logRetries b \<Longrightarrow> \<not> callable (logger b) \<Longrightarrow> P (abort TypeError b)"
  shows "P (drain_loop b)"
proof (cases "runningCount b < 1")
  case True
  with assms(1) show ?thesis by (simp add: drain_loop_resolves)
next
  case False
  then have r: "1 \<le> runningCount b" by simp
  show ?thesis
  proof (cases "logRetries b \<longrightarrow> callable (logger b)")
    case True
    with r assms(2) show ?thesis by (simp add: drain_loop_waits)
  next
    case False
    with r assms(3) show ?thesis by (simp add: drain_loop_raises)
  qed
qed

lemma for_loop_done:
  "\<not> ix b < length (jobs b) \<Longrightarrow> for_loop b = drain_loop b"
  by (subst for_loop.simps) simp

lemma for_loop_blocked:
  "ix b < length (jobs b) \<Longrightarrow> maxParallel b \<le> runningCount b \<Longrightarrow>
   logRetries b \<longrightarrow> callable (logger b) \<Longrightarrow> for_loop b = admission_wait b"
  by (subst for_loop.simps) (simp add: Let_def emit_def asyncTimeout_def admission_wait_def)

lemma for_loop_blocked_raises:
  "ix b < length (jobs b) \<Longrightarrow> maxParallel b \<le> runningCount b \<Longrightarrow>
   logRetries b \<Longrightarrow> \<not> callable (logger b) \<Longrightarrow> for_loop b = abort TypeError b"
  by (subst for_loop.simps) (simp add: Let_def emit_def abort_def)

lemma for_loop_start_raises:
  "ix b < length (jobs b) \<Longrightarrow> runningCount b < maxParallel b \<Longrightarrow> \<not> callable (logger b) \<Longrightarrow>
   for_loop b = abort TypeError (b\<lparr>runningCount := runningCount b + 1\<rparr>)"
  by (subst for_loop.simps) (simp add: Let_def emit_def abort_def)

lemma for_loop_throws:
  "ix b < length (jobs b) \<Longrightarrow> runningCount b < maxParallel b \<Longrightarrow> callable (logger b) \<Longrightarrow>
   jobToPromise b (jobs b ! ix b) = Throws e \<Longrightarrow>
   for_loop b = abort e (admit_job b)"
  by (subst for_loop.simps) (simp add: Let_def emit_def admit_job_def abort_def)

lemma for_loop_admits:
  "ix b < length (jobs b) \<Longrightarrow> runningCount b < maxParallel b \<Longrightarrow> callable (logger b) \<Longrightarrow>
   jobToPromise b (jobs b ! ix b) = Returns p \<Longrightarrow>
   for_loop b = for_loop (attach (admit_job b))"
  by (subst for_loop.simps) (simp add: Let_def emit_def admit_job_def attach_def)

lemma for_loop_rule:
  assumes inv: "I b"
    and finished: "\<And>b. I b \<Longrightarrow> \<not> ix b < length (jobs b) \<Longrightarrow> Q (drain_loop b)"
    and blocked: "\<And>b. I b \<Longrightarrow> ix b < length (jobs b) \<Longrightarrow> maxParallel b \<le> runningCount b \<Longrightarrow>
                    logRetries b \<longrightarrow> callable (logger b) \<Longrightarrow> Q (admission_wait b)"
    and blocked_raises: "\<And>b. I b \<Longrightarrow> ix b < length (jobs b) \<Longrightarrow> maxParallel b \<le> runningCount b \<Longrightarrow>
                    logRetries b \<Longrightarrow> \<not> callable (logger b) \<Longrightarrow> Q (abort TypeError b)"
    and start_raises: "\<And>b. I b \<Longrightarrow> ix b < length (jobs b) \<Longrightarrow> runningCount b < maxParallel b \<Longrightarrow>
                    \<not> callable (logger b) \<Longrightarrow>
                    Q (abort TypeError (b\<lparr>runningCount := runningCount b + 1\<rparr>))"
    and throws: "\<And>b e. I b \<Longrightarrow> ix b < length (jobs b) \<Longrightarrow> runningCount b < maxParallel b \<Longrightarrow>
                    callable (logger b) \<Longrightarrow>
                    jobToPromise b (jobs b ! ix b) = Throws e \<Longrightarrow> Q (abort e (admit_job b))"
    and admits: "\<And>b p. I b \<Longrightarrow> ix b < length (jobs b) \<Longrightarrow> runningCount b < maxParallel b \<Longrightarrow>
                    callable (logger b) \<Longrightarrow>
                    jobToPromise b (jobs b ! ix b) = Returns p \<Longrightarrow> I (attach (admit_job b))"
  shows "Q (for_loop b)"
  using inv
proof (induction "length (jobs b) - ix b" arbitrary: b rule: less_induct)
  case less
  show ?case
  proof (cases "ix b < length (jobs b)")
    case False
    with less.prems finished show ?thesis by (simp add: for_loop_done)
  next
    case True
    show ?thesis
    proof (cases "maxParallel b \<le> runningCount b")
      case full: True
      show ?thesis
      proof (cases "logRetries b \<longrightarrow> callable (logger b)")
        case lg: True
        from blocked [OF less.prems True full lg] show ?thesis
          by (simp only: for_loop_blocked [OF True full lg])
      next
        case False
        then have lr: "logRetries b" and nc: "\<not> callable (logger b)" by simp_all
        from blocked_raises [OF less.prems True full lr nc] show ?thesis
          by (simp only: for_loop_blocked_raises [OF True full lr nc])
      qed
    next
      case False
      then have lt: "runningCount b < maxParallel b" by simp
      show ?thesis
      proof (cases "callable (logger b)")
        case nc: False
        from start_raises [OF less.prems True lt nc] show ?thesis
          by (simp only: for_loop_start_raises [OF True lt nc])
      next
        case cl: True
        show ?thesis
        proof (cases "jobToPromise b (jobs b ! ix b)")
          case (Throws e)
          from throws [OF less.prems True lt cl Throws] show ?thesis
            by (simp only: for_loop_throws [OF True lt cl Throws])
        next
          case (Returns p)
          have "length (jobs (attach (admit_job b))) - ix (attach (admit_job b)) < length (jobs b) - ix b"
            using True by (simp add: attach_def admit_job_def)
          moreover have "I (attach (admit_job b))"
            using admits [OF less.prems True lt cl Returns] .
          ultimately have "Q (for_loop (attach (admit_job b)))" by (rule less.hyps)
          then show ?thesis by (simp only: for_loop_admits [OF True lt cl Returns])
        qed
      qed
    qed
  qed
qed

lemma settle_settled:
  "jobToPromise b (jobs b ! k) = Returns (Some s) \<Longrightarrow>
   settle k b = b\<lparr>runningCount := runningCount b - 1,
                  runs := runs b @ [record_of (jobs b ! k) s],
                  pending := remove1 k (pending b)\<rparr>"
  by (cases s) (simp_all add: settle_def record_of_def)

lemma settle_unsettled:
  "outcome (jobToPromise b) (jobs b ! k) = None \<Longrightarrow> settle k b = b"
  by (simp add: settle_def outcome_def split: operation.splits option.splits)

lemma outcome_Some:
  "jobToPromise b (jobs b ! k) = Returns (Some s) \<Longrightarrow>
   outcome (jobToPromise b) (jobs b ! k) = Some (record_of (jobs b ! k) s)"
  by (simp add: outcome_def)

subsection \<open>Runs\<close>

lemma batch_run_induct:
  assumes "P b" and "\<And>ev s. P s \<Longrightarrow> P (batch_step ev s)"
  shows "P (batch_run evs b)"
  unfolding batch_run_def using assms(1)
  by (induction evs arbitrary: b) (simp_all add: assms(2))


lemma batch_run_Cons: "batch_run (ev # evs) b = batch_run evs (batch_step ev b)"
  by (simp add: batch_run_def)


lemma allSettled_initial: "allSettledParallelLimited js f m r lg lr = for_loop (initial js f m r lg lr)"
  by (simp add: allSettledParallelLimited_def initial_def)


subsection \<open>Parameters\<close>

lemma drain_loop_params:
  "params (drain_loop b) = params b \<and> runs (drain_loop b) = runs b \<and>
   pending (drain_loop b) = pending b"
  by (rule drain_loop_cases) (simp_all add: params_def drain_wait_def abort_def)

lemma for_loop_params:
  fixes b :: "('j, 'v, 'e) batch"
  shows "params (for_loop b) = params b \<and> runs (for_loop b) = runs b"
proof (rule for_loop_rule [where I = "\<lambda>s. params s = params b \<and> runs s = runs b"])
  fix s :: "('j, 'v, 'e) batch"
  assume a: "params s = params b \<and> runs s = runs b"
  then show "params (drain_loop s) = params b \<and> runs (drain_loop s) = runs b"
    by (simp add: drain_loop_params)
  from a show "params (admission_wait s) = params b \<and> runs (admission_wait s) = runs b"
    by (simp add: params_def admission_wait_def)
  from a show "params (attach (admit_job s)) = params b \<and> runs (attach (admit_job s)) = runs b"
    by (simp add: params_def attach_def admit_job_def)
  from a show "params (abort TypeError s) = params b \<and> runs (abort TypeError s) = runs b"
    by (simp add: params_def abort_def)
  from a show "params (abort TypeError (s\<lparr>runningCount := runningCount s + 1\<rparr>)) = params b \<and>
      runs (abort TypeError (s\<lparr>runningCount := runningCount s + 1\<rparr>)) = runs b"
    by (simp add: params_def abort_def)
  fix e :: "'e exn"
  from a show "params (abort e (admit_job s)) = params b \<and> runs (abort e (admit_job s)) = runs b"
    by (simp add: params_def admit_job_def abort_def)
qed simp

lemma settle_params: "params (settle k b) = params b"
  by (simp add: params_def settle_def split: operation.splits option.splits settlement.splits)

lemma batch_step_params: "params (batch_step ev b) = params b"
  by (cases ev) (simp_all add: for_loop_params drain_loop_params settle_params split: main.splits)

lemma batch_run_params: "params (batch_run evs b) = params b"
  by (rule batch_run_induct) (simp_all add: batch_step_params)

lemma allSettled_params: "params (allSettledParallelLimited js f m r lg lr) = (js, f, m, r, lg, lr)"
  unfolding allSettled_initial by (simp add: for_loop_params) (simp add: params_def initial_def)



subsection \<open>Counter and records\<close>

lemma batch_inv_ix: "batch_inv b \<Longrightarrow> ix b \<le> length (jobs b)"
  by (simp add: batch_inv_def)

lemma drain_loop_inv:
  assumes "batch_inv b" "leak (main b) = 0" "\<not> ix b < length (jobs b)"
  shows "batch_inv (drain_loop b) \<and> main_inv (drain_loop b)"
proof -
  from assms batch_inv_ix [of b] have n: "ix b = length (jobs b)" by simp
  show ?thesis
  proof (rule drain_loop_cases)
    assume "runningCount b < 1"
    with assms n show "batch_inv (b\<lparr>main := Resolved\<rparr>) \<and> main_inv (b\<lparr>main := Resolved\<rparr>)"
      by (simp add: batch_inv_def main_inv_def)
  next
    from assms n show "batch_inv (drain_wait b) \<and> main_inv (drain_wait b)"
      by (simp add: batch_inv_def main_inv_def drain_wait_def)
  next
    from assms n show "batch_inv (abort TypeError b) \<and> main_inv (abort TypeError b)"
      by (simp add: batch_inv_def main_inv_def abort_def)
  qed
qed

lemma admission_wait_inv:
  assumes "batch_inv b" "leak (main b) = 0" "ix b < length (jobs b)"
  shows "batch_inv (admission_wait b) \<and> main_inv (admission_wait b)"
  using assms by (simp add: batch_inv_def main_inv_def admission_wait_def)

lemma abort_inv:
  assumes "batch_inv b" "leak (main b) = 0"
  shows "batch_inv (abort e b) \<and> main_inv (abort e b)"
    and "batch_inv (abort e (b\<lparr>runningCount := runningCount b + 1\<rparr>)) \<and>
         main_inv (abort e (b\<lparr>runningCount := runningCount b + 1\<rparr>))"
    and "batch_inv (abort e (admit_job b)) \<and> main_inv (abort e (admit_job b))"
  using assms by (simp_all add: batch_inv_def main_inv_def admit_job_def abort_def)

lemma attach_inv:
  assumes "batch_inv b" "leak (main b) = 0" "ix b < length (jobs b)"
  shows "batch_inv (attach (admit_job b)) \<and> leak (main (attach (admit_job b))) = 0"
  using assms
  by (auto simp: batch_inv_def attach_def admit_job_def take_Suc_conv_app_nth)

lemma for_loop_inv:
  fixes b :: "('j, 'v, 'e) batch"
  assumes "batch_inv b" "leak (main b) = 0"
  shows "batch_inv (for_loop b) \<and> main_inv (for_loop b)"
proof (rule for_loop_rule [where I = "\<lambda>b. batch_inv b \<and> leak (main b) = 0"])
  show "batch_inv b \<and> leak (main b) = 0" using assms by simp
next
  fix b :: "('j, 'v, 'e) batch"
  assume "batch_inv b \<and> leak (main b) = 0" "\<not> ix b < length (jobs b)"
  then show "batch_inv (drain_loop b) \<and> main_inv (drain_loop b)"
    using drain_loop_inv [of b] by simp
next
  fix b :: "('j, 'v, 'e) batch"
  assume "batch_inv b \<and> leak (main b) = 0" "ix b < length (jobs b)"
  then show "batch_inv (admission_wait b) \<and> main_inv (admission_wait b)"
    using admission_wait_inv [of b] by simp
next
  fix b :: "('j, 'v, 'e) batch"
  assume "batch_inv b \<and> leak (main b) = 0"
  then show "batch_inv (abort TypeError b) \<and> main_inv (abort TypeError b)"
    using abort_inv(1) [of b] by simp
next
  fix b :: "('j, 'v, 'e) batch"
  assume "batch_inv b \<and> leak (main b) = 0"
  then show "batch_inv (abort TypeError (b\<lparr>runningCount := runningCount b + 1\<rparr>)) \<and>
      main_inv (abort TypeError (b\<lparr>runningCount := runningCount b + 1\<rparr>))"
    using abort_inv(2) [of b] by simp
next
  fix b :: "('j, 'v, 'e) batch" and e
  assume "batch_inv b \<and> leak (main b) = 0"
  then show "batch_inv (abort e (admit_job b)) \<and> main_inv (abort e (admit_job b))"
    using abort_inv(3) [of b e] by simp
next
  fix b :: "('j, 'v, 'e) batch"
  assume "batch_inv b \<and> leak (main b) = 0" "ix b < length (jobs b)"
  then show "batch_inv (attach (admit_job b)) \<and> leak (main (attach (admit_job b))) = 0"
    using attach_inv [of b] by simp
qed

lemma settle_inv:
  assumes inv: "batch_inv b" "main_inv b" and k: "k \<in> set (pending b)"
  shows "batch_inv (settle k b) \<and> main_inv (settle k b)"
proof (cases "outcome (jobToPromise b) (jobs b ! k)")
  case None
  with inv show ?thesis by (simp add: settle_unsettled)
next
  case (Some r)
  then obtain s where s: "jobToPromise b (jobs b ! k) = Returns (Some s)"
    by (auto simp: outcome_def split: operation.splits option.splits)
  let ?g = "\<lambda>k. outcome (jobToPromise b) (jobs b ! k)"
  let ?r = "record_of (jobs b ! k) s"
  from k have m: "mset (pending b) = add_mset k (mset (remove1 k (pending b)))" by simp
  from k have "0 < length (pending b)" by (rule length_pos_if_in_set)
  with k have len: "length (pending b) = Suc (length (remove1 k (pending b)))"
    by (simp add: length_remove1)
  have img: "image_mset ?g (mset (pending b)) =
        add_mset (Some ?r) (image_mset ?g (mset (remove1 k (pending b))))"
    by (subst m) (simp add: outcome_Some [OF s])
  have bal: "image_mset Some (mset (runs b @ [?r])) + image_mset ?g (mset (remove1 k (pending b))) =
        image_mset (outcome (jobToPromise b)) (mset (take (ix b) (jobs b)))"
    using inv(1) img by (simp add: batch_inv_def)
  have sub: "\<forall>j \<in> set (remove1 k (pending b)). j < ix b"
    using inv(1) by (auto simp: batch_inv_def dest: notin_set_remove1)
  have rc: "int (length (remove1 k (pending b))) \<le> runningCount b - 1"
    "runningCount b - 1 \<le> int (length (remove1 k (pending b))) + leak (main b)"
    using inv(1) len by (simp_all add: batch_inv_def)
  have "batch_inv (settle k b)"
    unfolding settle_settled [OF s] batch_inv_def
    using bal sub rc batch_inv_ix [OF inv(1)] by simp
  moreover have "main b \<noteq> Resolved"
    using inv len by (auto simp: main_inv_def batch_inv_def)
  then have "main_inv (settle k b)"
    using inv(2) unfolding settle_settled [OF s] main_inv_def
    by (simp split: main.splits)
  ultimately show ?thesis ..
qed

lemma batch_step_inv:
  assumes "batch_inv b \<and> main_inv b"
  shows "batch_inv (batch_step ev b) \<and> main_inv (batch_step ev b)"
proof (cases ev)
  case Timer
  show ?thesis
  proof (cases "main b")
    case AdmissionWait
    with assms Timer show ?thesis by (simp add: for_loop_inv)
  next
    case DrainWait
    with assms have "\<not> ix b < length (jobs b)" by (simp add: main_inv_def)
    with assms DrainWait Timer show ?thesis by (simp add: drain_loop_inv)
  qed (use assms Timer in simp_all)
next
  case (Settles k)
  with assms show ?thesis by (simp add: settle_inv)
qed

lemma allSettled_inv:
  "batch_inv (allSettledParallelLimited js f m r lg lr) \<and> main_inv (allSettledParallelLimited js f m r lg lr)"
  unfolding allSettled_initial
  by (rule for_loop_inv) (simp_all add: batch_inv_def initial_def)

lemma batch_run_inv:
  "batch_inv b \<and> main_inv b \<Longrightarrow> batch_inv (batch_run evs b) \<and> main_inv (batch_run evs b)"
  by (rule batch_run_induct) (simp_all add: batch_step_inv)

lemma pending_le: "batch_inv b \<Longrightarrow> int (length (pending b)) \<le> runningCount b"
  by (simp add: batch_inv_def)

lemma batch_size:
  assumes "batch_inv b"
  shows "length (runs b) + length (pending b) = ix b"
proof -
  from assms have "size (image_mset Some (mset (runs b)) +
        image_mset (\<lambda>k. outcome (jobToPromise b) (jobs b ! k)) (mset (pending b))) =
      size (image_mset (outcome (jobToPromise b)) (mset (take (ix b) (jobs b))))"
    by (simp only: batch_inv_def)
  moreover from assms have "ix b \<le> length (jobs b)" by (rule batch_inv_ix)
  ultimately show ?thesis by simp
qed




lemma over_run:
  assumes "main b \<noteq> AdmissionWait" "main b \<noteq> DrainWait" "pending b = []"
  shows "batch_run evs b = b"
proof (induction evs)
  case Nil
  show ?case by (simp add: batch_run_def)
next
  case (Cons ev evs)
  have "batch_step ev b = b" using assms by (cases ev; cases "main b") simp_all
  with Cons show ?case by (simp add: batch_run_Cons)
qed

subsection \<open>The capacity bound\<close>

lemma drain_loop_cap: "cap_ok b \<Longrightarrow> cap_ok (drain_loop b)"
  by (rule drain_loop_cases) (simp_all add: cap_ok_def drain_wait_def abort_def)

lemma for_loop_cap: "cap_ok b \<Longrightarrow> cap_ok (for_loop b)"
proof (rule for_loop_rule [where I = cap_ok])
  fix b :: "('j, 'v, 'e) batch"
  assume "cap_ok b"
  then show "cap_ok (drain_loop b)" by (rule drain_loop_cap)
  from \<open>cap_ok b\<close> show "cap_ok (admission_wait b)"
    by (simp add: cap_ok_def admission_wait_def)
  from \<open>cap_ok b\<close> show "cap_ok (abort TypeError b)"
    by (simp add: cap_ok_def abort_def)
next
  fix b :: "('j, 'v, 'e) batch"
  assume "cap_ok b" "runningCount b < maxParallel b"
  then show "cap_ok (abort TypeError (b\<lparr>runningCount := runningCount b + 1\<rparr>))"
    by (simp add: cap_ok_def abort_def)
next
  fix b :: "('j, 'v, 'e) batch" and e :: "'e exn"
  assume "cap_ok b" "runningCount b < maxParallel b"
  then show "cap_ok (abort e (admit_job b))"
    by (simp add: cap_ok_def admit_job_def abort_def)
next
  fix b :: "('j, 'v, 'e) batch"
  assume "cap_ok b" "runningCount b < maxParallel b"
  then show "cap_ok (attach (admit_job b))"
    by (simp add: cap_ok_def admit_job_def attach_def)
qed

lemma settle_cap: "cap_ok b \<Longrightarrow> cap_ok (settle k b)"
  by (cases "outcome (jobToPromise b) (jobs b ! k)")
     (auto simp: cap_ok_def settle_unsettled outcome_def settle_settled
        split: operation.splits option.splits)

lemma batch_step_cap: "cap_ok b \<Longrightarrow> cap_ok (batch_step ev b)"
  by (cases ev) (simp_all add: for_loop_cap drain_loop_cap settle_cap split: main.splits)

lemma batch_run_cap: "cap_ok b \<Longrightarrow> cap_ok (batch_run evs b)"
  by (rule batch_run_induct) (simp_all add: batch_step_cap)

lemma allSettled_cap: "0 \<le> m \<Longrightarrow> cap_ok (allSettledParallelLimited js f m r lg lr)"
  unfolding allSettled_initial by (rule for_loop_cap) (simp add: cap_ok_def initial_def)

subsection \<open>A capacity of zero or less\<close>





subsection \<open>A capacity of at least the job count\<close>

lemma drain_loop_quiet:
  assumes "\<forall>x \<in> set (logged b). \<not> admission_poll (snd x)"
  shows "quiet (drain_loop b)"
proof (rule drain_loop_cases)
  from assms show "quiet (b\<lparr>main := Resolved\<rparr>)" by (simp add: quiet_def)
  from assms show "quiet (drain_wait b)" by (auto simp: quiet_def drain_wait_def)
  from assms show "quiet (abort TypeError b)" by (simp add: quiet_def abort_def)
qed

lemma for_loop_quiet:
  fixes b :: "('j, 'v, 'e) batch"
  assumes "batch_inv b" "leak (main b) = 0" "int (length (jobs b)) \<le> maxParallel b"
    and "\<forall>x \<in> set (logged b). \<not> admission_poll (snd x)"
  shows "quiet (for_loop b)"
proof (rule for_loop_rule [where I = "\<lambda>s. batch_inv s \<and> leak (main s) = 0 \<and>
      int (length (jobs s)) \<le> maxParallel s \<and> (\<forall>x \<in> set (logged s). \<not> admission_poll (snd x))"])
  show "batch_inv b \<and> leak (main b) = 0 \<and> int (length (jobs b)) \<le> maxParallel b \<and>
      (\<forall>x \<in> set (logged b). \<not> admission_poll (snd x))"
    using assms by simp
next
  fix s :: "('j, 'v, 'e) batch"
  assume a: "batch_inv s \<and> leak (main s) = 0 \<and> int (length (jobs s)) \<le> maxParallel s \<and>
      (\<forall>x \<in> set (logged s). \<not> admission_poll (snd x))"
  then show "quiet (drain_loop s)" by (simp add: drain_loop_quiet)
  from a show "quiet (abort TypeError (s\<lparr>runningCount := runningCount s + 1\<rparr>))"
    by (auto simp: quiet_def abort_def)
  fix e :: "'e exn"
  from a show "quiet (abort e (admit_job s))"
    by (auto simp: quiet_def admit_job_def abort_def)
next
  fix s :: "('j, 'v, 'e) batch"
  assume a: "batch_inv s \<and> leak (main s) = 0 \<and> int (length (jobs s)) \<le> maxParallel s \<and>
      (\<forall>x \<in> set (logged s). \<not> admission_poll (snd x))"
    and lt: "ix s < length (jobs s)" and full: "maxParallel s \<le> runningCount s"
  from a have "runningCount s \<le> int (length (pending s))" by (simp add: batch_inv_def)
  moreover from a batch_size [of s] have "length (pending s) \<le> ix s" by simp
  ultimately have f: False using a lt full by simp
  from f show "quiet (admission_wait s)" ..
  from f show "quiet (abort TypeError s)" ..
next
  fix s :: "('j, 'v, 'e) batch"
  assume a: "batch_inv s \<and> leak (main s) = 0 \<and> int (length (jobs s)) \<le> maxParallel s \<and>
      (\<forall>x \<in> set (logged s). \<not> admission_poll (snd x))"
    and lt: "ix s < length (jobs s)"
  with attach_inv [of s]
  show "batch_inv (attach (admit_job s)) \<and> leak (main (attach (admit_job s))) = 0 \<and>
      int (length (jobs (attach (admit_job s)))) \<le> maxParallel (attach (admit_job s)) \<and>
      (\<forall>x \<in> set (logged (attach (admit_job s))). \<not> admission_poll (snd x))"
    by (auto simp: attach_def admit_job_def)
qed

lemma quiet_step:
  assumes "quiet b"
  shows "quiet (batch_step ev b)"
proof (cases ev)
  case Timer
  show ?thesis
  proof (cases "main b = DrainWait")
    case True
    from assms have "\<forall>x \<in> set (logged b). \<not> admission_poll (snd x)" by (simp add: quiet_def)
    then have "quiet (drain_loop b)" by (rule drain_loop_quiet)
    with True Timer show ?thesis by simp
  next
    case False
    with assms Timer show ?thesis by (cases "main b") (simp_all add: quiet_def)
  qed
next
  case (Settles k)
  with assms show ?thesis
    by (auto simp: quiet_def settle_def split: operation.splits option.splits settlement.splits)
qed

subsection \<open>The collection returned\<close>




subsection \<open>Completion\<close>












subsection \<open>Fair runs end\<close>









section \<open>The claims\<close>

text \<open>
  Claim C1. For every capacity of at least one, the operations admitted and not yet
  completed never exceed the capacity. In every state the limiter reaches from its
  construction, under any sequence of \<^verbatim>\<open>schedule\<close> calls, timer wake-ups and settling
  promises, the number of calls suspended in \<^verbatim>\<open>await promise\<close> is at most
  \<^verbatim>\<open>runningCount\<close>, and \<^verbatim>\<open>runningCount\<close> is at most \<^verbatim>\<open>maxParallel\<close>, which never
  changes. In every state a batch run reaches, the number of jobs whose promise is still
  pending is at most the running count, and the running count is at most \<^verbatim>\<open>maxParallel\<close>.
  The states are those between two synchronous segments; within a segment the counter
  only goes up by one, right after the test \<^verbatim>\<open>runningCount >= maxParallel\<close> has failed.
  This holds for every logger, also one that cannot be called.
\<close>

theorem capacity_never_exceeded:
  fixes opts :: options and evs :: "('v, 'e) event list"
    and js :: "'j list" and f :: "'j \<Rightarrow> ('w, 'x) operation"
  assumes "1 \<le> maxParallel (ParallelLimiter opts :: ('v, 'e) limiter)" and "1 \<le> m"
  shows "(let L = limiter_run evs (ParallelLimiter opts)
          in int (in_flight L) \<le> runningCount L \<and> runningCount L \<le> maxParallel L \<and>
             maxParallel L = maxParallel (ParallelLimiter opts :: ('v, 'e) limiter)) \<and>
         (let b = batch_run bevs (allSettledParallelLimited js f m r lg lr)
          in int (length (pending b)) \<le> runningCount b \<and> runningCount b \<le> maxParallel b \<and>
             maxParallel b = m)"
proof -
  let ?init = "ParallelLimiter opts :: ('v, 'e) limiter"
  let ?start = "allSettledParallelLimited js f m r lg lr"
  have "runningCount ?init = 0" by (simp add: ParallelLimiter_def Let_def)
  with assms have "cap_ok ?init" by (simp add: cap_ok_def)
  then have "cap_ok (limiter_run evs ?init)" by (rule limiter_run_cap)
  moreover have "limiter_inv (limiter_run evs ?init)"
    by (rule limiter_run_inv) (rule ParallelLimiter_inv)
  ultimately have lim: "int (in_flight (limiter_run evs ?init)) \<le> runningCount (limiter_run evs ?init) \<and>
      runningCount (limiter_run evs ?init) \<le> maxParallel (limiter_run evs ?init)"
    by (simp add: cap_ok_def in_flight_le)
  from assms have "cap_ok ?start" by (simp add: allSettled_cap)
  then have "cap_ok (batch_run bevs ?start)" by (rule batch_run_cap)
  moreover have "batch_inv (batch_run bevs ?start)"
    using batch_run_inv [OF allSettled_inv] by blast
  moreover have "params (batch_run bevs ?start) = (js, f, m, r, lg, lr)"
    by (simp add: batch_run_params allSettled_params)
  ultimately have bat: "int (length (pending (batch_run bevs ?start))) \<le> runningCount (batch_run bevs ?start) \<and>
      runningCount (batch_run bevs ?start) \<le> maxParallel (batch_run bevs ?start) \<and>
      maxParallel (batch_run bevs ?start) = m"
    by (simp add: cap_ok_def pending_le params_def)
  from lim bat show ?thesis by (simp add: Let_def limiter_run_frame)
qed

theorem capacity_never_exceeded_witness:
  "1 \<le> maxParallel (ParallelLimiter opts1 :: (nat, string) limiter) \<and> (1::int) \<le> 2 \<and>
   in_flight (limiter_run evs1 (ParallelLimiter opts1)) = 1 \<and>
   runningCount (limiter_run evs1 (ParallelLimiter opts1)) = 1 \<and>
   runningCount (limiter_run evs1 (ParallelLimiter opts1)) \<le> 1 \<and>
   length (pending (batch_run [Settles 1] (allSettledParallelLimited [0, 1, 2] job1 2 10 noop_logger True))) = 1 \<and>
   runningCount (batch_run [Settles 1] (allSettledParallelLimited [0, 1, 2] job1 2 10 noop_logger True)) \<le> 2"
proof -
  have h: "1 \<le> maxParallel (ParallelLimiter opts1 :: (nat, string) limiter)" "(1::int) \<le> 2"
    by (simp_all add: opts1_def ParallelLimiter_def)
  have m: "maxParallel (ParallelLimiter opts1 :: (nat, string) limiter) = 1"
    by (simp add: opts1_def ParallelLimiter_def)
  have e: "in_flight (limiter_run evs1 (ParallelLimiter opts1)) = 1"
    "runningCount (limiter_run evs1 (ParallelLimiter opts1)) = 1"
    "length (pending (batch_run [Settles 1] (allSettledParallelLimited [0, 1, 2] job1 2 10 noop_logger True))) = 1"
    by code_simp+
  from capacity_never_exceeded [OF h, of evs1 "[Settles 1]" "[0, 1, 2]" job1 10 noop_logger True] h m e
  show ?thesis by (simp add: Let_def)
qed




text \<open>
  Claim C3, at a single job whose operation raises synchronously. \<^verbatim>\<open>jobToPromise(job)\<close>
  raises inside the \<^verbatim>\<open>for\<close> loop, where no handler is attached yet and no \<^verbatim>\<open>try\<close>
  encloses the call: the exception leaves the body, the promise of
  \<^verbatim>\<open>allSettledParallelLimited\<close> is rejected with the error, and \<^verbatim>\<open>runs\<close> stays empty in
  every later state. (With a logger that cannot be called the start message of line 31
  raises first, and the promise is rejected with that \<^verbatim>\<open>TypeError\<close>.)
\<close>

theorem sync_throw_rejects_batch:
  fixes j :: 'j and e :: "'e exn"
  shows "(let b = batch_run evs (allSettledParallelLimited [j] (\<lambda>job. Throws e) 1 r lg lr)
    in main b = Rejected (if callable lg then e else TypeError) \<and>
       runs b = ([] :: ('j, 'v, 'e) settled list) \<and> runningCount b = 1)"
proof (cases "callable lg")
  case True
  let ?t = "abort e (admit_job (initial [j] (\<lambda>job. Throws e) 1 r lg lr)) :: ('j, 'v, 'e) batch"
  have s: "allSettledParallelLimited [j] (\<lambda>job. Throws e) 1 r lg lr = ?t"
    unfolding allSettled_initial using True by (intro for_loop_throws) (simp_all add: initial_def)
  have "batch_run evs ?t = ?t"
    by (rule over_run) (simp_all add: abort_def admit_job_def initial_def)
  with s True show ?thesis by (simp add: Let_def initial_def admit_job_def abort_def)
next
  case False
  let ?i = "initial [j] (\<lambda>job. Throws e) 1 r lg lr :: ('j, 'v, 'e) batch"
  let ?t = "abort TypeError (?i\<lparr>runningCount := runningCount ?i + 1\<rparr>)"
  have s: "allSettledParallelLimited [j] (\<lambda>job. Throws e) 1 r lg lr = ?t"
    unfolding allSettled_initial using False by (intro for_loop_start_raises) (simp_all add: initial_def)
  have "batch_run evs ?t = ?t"
    by (rule over_run) (simp_all add: abort_def initial_def)
  with s False show ?thesis by (simp add: Let_def initial_def abort_def)
qed

text \<open>
  Claim C4, at an operation that raises synchronously. On a limiter of capacity 1 with
  the counter at 0, \<^verbatim>\<open>schedule(() => { throw e })\<close> is admitted, the counter goes to 1,
  \<^verbatim>\<open>promiseProvider()\<close> raises outside the \<^verbatim>\<open>try\<close> block, and the call rejects with the
  error unchanged while the counter stays at 1: nothing was logged after the start
  message and no decrement ran. The next call, whose operation would resolve to 7, is then
  kept in the admission loop with its operation not invoked. A further input: a promise
  rejected with \<^verbatim>\<open>undefined\<close> has the \<^verbatim>\<open>catch\<close> block decrement and then raise
  \<^verbatim>\<open>TypeError\<close> at \<^verbatim>\<open>e.message\<close>, so the call rejects with that and logs nothing.
\<close>

theorem sync_throw_leaks_slot:
  "(let L = limiter_run evs2 (ParallelLimiter opts2)
    in map at (calls L) = [Thrown (Raised ''boom''), Polling] \<and>
       map invocations (calls L) = [1, 0] \<and>
       runningCount L = 1 \<and>
       map snd (logged L) = [StartedPromise 1 1, MaxReached 1 10, MaxReached 1 10]) \<and>
   (let L = limiter_run [Schedule (Returns (Some (RejectsWith Nullish))), PromiseSettles 0]
              (ParallelLimiter opts2) :: (nat, string) limiter
    in map at (calls L) = [Thrown TypeError] \<and> runningCount L = 0 \<and>
       map snd (logged L) = [StartedPromise 1 1])"
  by code_simp




text \<open>
  Claim C6, as the code has it. When \<^verbatim>\<open>maxParallel\<close> is at least the number of jobs, the
  body is never suspended in the admission loop and no diagnostic of the admission loop
  (\<^verbatim>\<open>max parallel count reached\<close>) is ever logged, in any state of the run. The drain loop
  still polls, and logs \<^verbatim>\<open>Waiting for runs to complete\<close> when \<^verbatim>\<open>logRetries\<close> is set.
\<close>

theorem large_capacity_never_waits_for_admission:
  fixes js :: "'j list" and f :: "'j \<Rightarrow> ('v, 'e) operation"
  assumes "int (length js) \<le> m"
  shows "(let b = batch_run evs (allSettledParallelLimited js f m r lg lr)
          in main b \<noteq> AdmissionWait \<and> (\<forall>x \<in> set (logged b). \<not> admission_poll (snd x)))"
proof -
  have "quiet (for_loop (initial js f m r lg lr))"
    using assms by (intro for_loop_quiet) (simp_all add: initial_def batch_inv_def)
  then have "quiet (allSettledParallelLimited js f m r lg lr)" by (simp only: allSettled_initial)
  then have "quiet (batch_run evs (allSettledParallelLimited js f m r lg lr))"
    by (rule batch_run_induct) (rule quiet_step)
  then show ?thesis by (simp add: quiet_def Let_def)
qed

theorem large_capacity_never_waits_for_admission_witness:
  "int (length [0::nat, 1, 2]) \<le> 3 \<and>
   main (batch_run [Settles 1, Timer] (allSettledParallelLimited [0, 1, 2] job1 3 10 noop_logger True)) = DrainWait \<and>
   map snd (logged (batch_run [Settles 1, Timer] (allSettledParallelLimited [0, 1, 2] job1 3 10 noop_logger True))) =
     [BatchStarted 0 3 1, BatchStarted 1 3 2, BatchStarted 2 3 3, BatchWaiting 3 10, BatchWaiting 2 10] \<and>
   filter admission_poll
     (map snd (logged (batch_run [Settles 1, Timer] (allSettledParallelLimited [0, 1, 2] job1 3 10 noop_logger True)))) = []"
proof -
  have h: "int (length [0::nat, 1, 2]) \<le> 3" by simp
  have e: "main (batch_run [Settles 1, Timer] (allSettledParallelLimited [0, 1, 2] job1 3 10 noop_logger True)) = DrainWait"
    "map snd (logged (batch_run [Settles 1, Timer] (allSettledParallelLimited [0, 1, 2] job1 3 10 noop_logger True))) =
     [BatchStarted 0 3 1, BatchStarted 1 3 2, BatchStarted 2 3 3, BatchWaiting 3 10, BatchWaiting 2 10]"
    by code_simp+
  from large_capacity_never_waits_for_admission [OF h, of "[Settles 1, Timer]" job1 10 noop_logger True] h e
  show ?thesis by (simp add: Let_def filter_empty_conv)
qed

text \<open>
  Claim C6 as stated fails: one job, \<^verbatim>\<open>maxParallel = 1\<close>, \<^verbatim>\<open>logRetries = true\<close>. The job
  is admitted without a wait, and the drain loop, entered with the job still running,
  logs its polling diagnostic before the first \<^verbatim>\<open>await\<close>.
\<close>

theorem large_capacity_still_logs_drain_polls:
  "int (length [0::nat]) \<le> 1 \<and>
   map snd (logged (allSettledParallelLimited [0::nat] job1 1 10 noop_logger True)) =
     [BatchStarted 0 1 1, BatchWaiting 1 10] \<and>
   drain_poll (BatchWaiting 1 10 :: string diag) \<and>
   timeouts (allSettledParallelLimited [0::nat] job1 1 10 noop_logger True) = [50]"
  by code_simp

text \<open>
  Claim C7. \<^verbatim>\<open>noLimiter.schedule(operation)\<close> calls the operation once, at once, and its
  promise takes the operation's outcome: fulfilled with the value the operation's promise
  is fulfilled with (42 for an operation resolving to 42), rejected with the error it is
  rejected with or that the operation raised. The counter, the log and the timers are
  what they were: nothing is checked, counted, logged or awaited.
\<close>

theorem noLimiter_passes_through:
  "noLimiter_schedule g (Returns (Some (Resolves v))) = (g, 1, Some (Resolves v)) \<and>
   noLimiter_schedule g (Returns (Some (RejectsWith e))) = (g, 1, Some (RejectsWith e)) \<and>
   noLimiter_schedule g (Throws e) = (g, 1, Some (RejectsWith e)) \<and>
   noLimiter_schedule g (Returns None) = (g, 1, None) \<and>
   fst (noLimiter_schedule g p) = g \<and> fst (snd (noLimiter_schedule g p)) = 1 \<and>
   snd (snd (noLimiter_schedule g (Returns (Some (Resolves (42::int)))))) = Some (Resolves 42)"
  by (simp add: noLimiter_schedule_def split: operation.splits)




text \<open>
  Claim C9. For the empty job list the call returns within its first synchronous segment:
  neither loop body runs, so the promise is fulfilled with the empty collection, no
  timer was armed and nothing was logged, whatever \<^verbatim>\<open>maxParallel\<close> is; no later event
  changes that.
\<close>

theorem empty_batch_resolves_at_once:
  fixes f :: "'j \<Rightarrow> ('v, 'e) operation"
  shows "(let b = batch_run evs (allSettledParallelLimited [] f m r lg lr)
    in main b = Resolved \<and> runs b = [] \<and> timeouts b = [] \<and> logged b = [] \<and>
       runningCount b = 0 \<and> pending b = [])"
proof -
  have "for_loop (initial [] f m r lg lr) = drain_loop (initial [] f m r lg lr)"
    by (rule for_loop_done) (simp add: initial_def)
  then have s: "allSettledParallelLimited [] f m r lg lr = (initial [] f m r lg lr)\<lparr>main := Resolved\<rparr>"
    by (simp add: allSettled_initial) (simp add: drain_loop_def initial_def)
  have "batch_run evs ((initial [] f m r lg lr)\<lparr>main := Resolved\<rparr>) = (initial [] f m r lg lr)\<lparr>main := Resolved\<rparr>"
    by (rule over_run) (simp_all add: initial_def)
  with s show ?thesis by (simp add: Let_def initial_def)
qed

text \<open>
  Claim C10, as the code has it. The constructor stores \<^verbatim>\<open>logger?.debug ?? logger\<close>, where
  \<^verbatim>\<open>logger\<close> is the argument, or \<^verbatim>\<open>() => {}\<close> when the argument is undefined. The stored
  sink is the \<^verbatim>\<open>debug\<close> property when the logger is not null and the property is neither
  undefined nor null, and the logger itself otherwise. The sink never changes, and every
  diagnostic of every \<^verbatim>\<open>schedule\<close> call goes to it.
\<close>

theorem diagnostics_sink:
  fixes opts :: options and evs :: "('v, 'e) event list"
  shows "(let lg = (if opt_logger opts = JSUndefined then noop_logger else opt_logger opts);
              L = ParallelLimiter opts :: ('v, 'e) limiter
          in logger L =
               (if lg \<noteq> JSNull \<and> js_get lg ''debug'' \<noteq> JSUndefined \<and> js_get lg ''debug'' \<noteq> JSNull
                then js_get lg ''debug'' else lg) \<and>
             logger (limiter_run evs L) = logger L \<and>
             (\<forall>x \<in> set (logged (limiter_run evs L)). fst x = logger L))"
proof -
  let ?init = "ParallelLimiter opts :: ('v, 'e) limiter"
  have "set (logged ?init) \<subseteq> {logger ?init} \<times> UNIV"
    by (simp add: ParallelLimiter_def Let_def)
  from sink_run [OF this, of evs]
  have r: "logger (limiter_run evs ?init) = logger ?init"
    "\<forall>x \<in> set (logged (limiter_run evs ?init)). fst x = logger ?init"
    by auto
  have s: "logger ?init = sink (if opt_logger opts = JSUndefined then noop_logger else opt_logger opts)"
    by (simp add: ParallelLimiter_def Let_def)
  have n: "js_get noop_logger k = JSUndefined" for k by (simp add: noop_logger_def)
  have "sink lg = (if lg \<noteq> JSNull \<and> js_get lg ''debug'' \<noteq> JSUndefined \<and> js_get lg ''debug'' \<noteq> JSNull
                then js_get lg ''debug'' else lg)" if "lg \<noteq> JSUndefined" for lg
    using that by (simp add: sink_def nullish_coalesce_def optional_chain_def nullish_def)
  with r s show ?thesis by (simp add: Let_def noop_logger_def)
qed

theorem diagnostics_sink_witness:
  "logger (ParallelLimiter opts2 :: (nat, string) limiter) = JSFunction ''debug'' [] \<and>
   logged (limiter_run evs2 (ParallelLimiter opts2)) =
     [(JSFunction ''debug'' [], StartedPromise 1 1), (JSFunction ''debug'' [], MaxReached 1 10),
      (JSFunction ''debug'' [], MaxReached 1 10)] \<and>
   map fst (logged (limiter_run evs2 (ParallelLimiter opts2))) =
     replicate 3 (logger (ParallelLimiter opts2 :: (nat, string) limiter))"
proof -
  have e: "logger (ParallelLimiter opts2 :: (nat, string) limiter) = JSFunction ''debug'' []"
    "logged (limiter_run evs2 (ParallelLimiter opts2)) =
     [(JSFunction ''debug'' [], StartedPromise 1 1), (JSFunction ''debug'' [], MaxReached 1 10),
      (JSFunction ''debug'' [], MaxReached 1 10)]"
    by code_simp+
  from diagnostics_sink [of opts2 evs2] e show ?thesis by (simp add: Let_def numeral_3_eq_3)
qed

text \<open>
  Claim C10 as stated fails: a logger \<^verbatim>\<open>{debug: null}\<close> is not null and has a defined
  \<^verbatim>\<open>debug\<close> property, yet \<^verbatim>\<open>??\<close> passes over the \<^verbatim>\<open>null\<close> and the sink is the logger
  object itself, not its \<^verbatim>\<open>debug\<close> property.
\<close>

theorem null_debug_property_is_skipped:
  "null_debug \<noteq> JSNull \<and> null_debug \<noteq> JSUndefined \<and>
   js_get null_debug ''debug'' = JSNull \<and> js_get null_debug ''debug'' \<noteq> JSUndefined \<and>
   logger (ParallelLimiter opts3 :: (nat, string) limiter) = null_debug \<and>
   logger (ParallelLimiter opts3 :: (nat, string) limiter) \<noteq> js_get null_debug ''debug''"
  by (simp add: null_debug_def opts3_def ParallelLimiter_def sink_def nullish_coalesce_def
        optional_chain_def nullish_def)

end
